theory Spec2Isabelle
  imports Complex_Main
begin

section \<open>Text boxes and their geometry (utils.py)\<close>

text \<open>
  Python integers are unbounded, so the coordinates are \<open>int\<close>. The label is optional
  (\<open>text: str = None\<close>; the field is named \<open>box_text\<close> here, \<open>text\<close> being a
  keyword). The float division of \<open>intersection_over_union\<close> is modelled
  as exact rational division; a zero divisor raises \<open>ZeroDivisionError\<close>, and \<open>max\<close> or
  \<open>min\<close> of an empty list raises \<open>ValueError\<close>. Where the code compares the returned
  doubles with each other, in the evaluator, the float division is a parameter instead.
\<close>

record TextBox =
  y :: int
  x :: int
  h :: int
  w :: int
  box_text :: "string option"

datatype error = ZeroDivisionError | ValueError

definition intersection_over_union :: "TextBox \<Rightarrow> TextBox \<Rightarrow> error + rat" where
  "intersection_over_union box1 box2 =
     (let ya = max (y box1) (y box2);
          xa = max (x box1) (x box2);
          yb = min (y box1 + h box1) (y box2 + h box2);
          xb = min (x box1 + w box1) (x box2 + w box2);
          intersection_area = max 0 (xb - xa + 1) * max 0 (yb - ya + 1);
          box1_area = (h box1 + 1) * (w box1 + 1);
          box2_area = (h box2 + 1) * (w box2 + 1);
          divisor = box1_area + box2_area - intersection_area
      in if divisor = 0 then Inl ZeroDivisionError
         else Inr (of_int intersection_area / of_int divisor))"

definition overlap_y :: "TextBox \<Rightarrow> TextBox \<Rightarrow> int" where
  "overlap_y box1 box2 = min (y box1 + h box1) (y box2 + h box2) - max (y box1) (y box2)"

definition overlap_x :: "TextBox \<Rightarrow> TextBox \<Rightarrow> int" where
  "overlap_x box1 box2 = min (x box1 + w box1) (x box2 + w box2) - max (x box1) (x box2)"

definition boxes_intersect :: "TextBox \<Rightarrow> TextBox \<Rightarrow> bool" where
  "boxes_intersect box1 box2 = (overlap_x box1 box2 > 0 \<and> overlap_y box1 box2 > 0)"

text \<open>The invariant of the data model: height and width are not negative.\<close>

definition valid_box :: "TextBox \<Rightarrow> bool" where
  "valid_box b = (0 \<le> h b \<and> 0 \<le> w b)"

section \<open>The detection quality evaluator (utils.py)\<close>

text \<open>
  The evaluator compares the values returned by \<open>intersection_over_union\<close> with \<open>max\<close>
  and \<open>==\<close>, and averages them with \<open>np.mean\<close>. Those values are doubles, and two
  ratios that differ as rationals can be returned as the same double. The float operations
  are therefore parameters of the evaluator: \<open>fl_div i d\<close> is the double that
  \<open>i / float(d)\<close> returns for a non-zero \<open>d\<close>, and \<open>fl_mean vs\<close> the double that
  \<open>np.mean\<close> returns for a non-empty list. A finite double is written as the rational it
  denotes, so that order and equality are those of the doubles; integers beyond the double
  range, for which the conversion raises \<open>OverflowError\<close>, are not modelled.
  \<open>np.mean\<close> of an empty list does not raise: it returns \<open>nan\<close>. The score is therefore
  a number or \<open>NaN\<close>.
\<close>

record float_ops =
  fl_div :: "int \<Rightarrow> int \<Rightarrow> rat"
  fl_mean :: "rat list \<Rightarrow> rat"

text \<open>The operations without rounding, as in \<open>intersection_over_union\<close> above.\<close>

definition exact_ops :: float_ops where
  "exact_ops =
     \<lparr>fl_div = (\<lambda>i d. of_int i / of_int d),
      fl_mean = (\<lambda>vs. sum_list vs / of_nat (length vs))\<rparr>"

text \<open>\<open>intersection_over_union\<close> with the division of the given float operations.\<close>

definition intersection_over_union_fl :: "float_ops \<Rightarrow> TextBox \<Rightarrow> TextBox \<Rightarrow> error + rat" where
  "intersection_over_union_fl ops box1 box2 =
     (let ya = max (y box1) (y box2);
          xa = max (x box1) (x box2);
          yb = min (y box1 + h box1) (y box2 + h box2);
          xb = min (x box1 + w box1) (x box2 + w box2);
          intersection_area = max 0 (xb - xa + 1) * max 0 (yb - ya + 1);
          box1_area = (h box1 + 1) * (w box1 + 1);
          box2_area = (h box2 + 1) * (w box2 + 1);
          divisor = box1_area + box2_area - intersection_area
      in if divisor = 0 then Inl ZeroDivisionError
         else Inr (fl_div ops intersection_area divisor))"

datatype score = Mean rat | NaN

fun np_mean :: "float_ops \<Rightarrow> rat list \<Rightarrow> score" where
  "np_mean ops [] = NaN"
| "np_mean ops (v # vs) = Mean (fl_mean ops (v # vs))"

fun py_max :: "rat list \<Rightarrow> error + rat" where
  "py_max [] = Inl ValueError"
| "py_max (v # vs) = Inr (fold max vs v)"

text \<open>The comprehension \<open>[intersection_over_union(db, gb) for gb in gold_boxes]\<close>.\<close>

fun ious_of :: "float_ops \<Rightarrow> TextBox \<Rightarrow> TextBox list \<Rightarrow> error + rat list" where
  "ious_of ops db [] = Inr []"
| "ious_of ops db (gb # gbs) =
     (case intersection_over_union_fl ops db gb of
        Inl e \<Rightarrow> Inl e
      | Inr v \<Rightarrow> (case ious_of ops db gbs of Inl e \<Rightarrow> Inl e | Inr vs \<Rightarrow> Inr (v # vs)))"

text \<open>
  The inner loop over \<open>enumerate(ious)\<close>, adding every index whose double equals the
  maximum.
\<close>

definition mark_matched :: "rat list \<Rightarrow> rat \<Rightarrow> nat set \<Rightarrow> nat set" where
  "mark_matched ious max_iou matched_golden_boxes =
     fold (\<lambda>(idx, iou) m. if iou = max_iou then insert idx m else m)
       (enumerate 0 ious) matched_golden_boxes"

text \<open>The loop over the detected boxes; the state is \<open>(matched_golden_boxes, max_ious)\<close>.\<close>

fun detected_loop ::
  "float_ops \<Rightarrow> TextBox list \<Rightarrow> TextBox list \<Rightarrow> nat set \<times> rat list
     \<Rightarrow> error + nat set \<times> rat list" where
  "detected_loop ops [] gold_boxes st = Inr st"
| "detected_loop ops (db # dbs) gold_boxes (matched_golden_boxes, max_ious) =
     (case ious_of ops db gold_boxes of
        Inl e \<Rightarrow> Inl e
      | Inr ious \<Rightarrow>
          (case py_max ious of
             Inl e \<Rightarrow> Inl e
           | Inr max_iou \<Rightarrow>
               detected_loop ops dbs gold_boxes
                 (mark_matched ious max_iou matched_golden_boxes, max_ious @ [max_iou])))"

text \<open>The loop over \<open>range(len(gold_boxes))\<close>, appending a zero for every unmatched index.\<close>

definition penalty_loop :: "nat \<Rightarrow> nat set \<Rightarrow> rat list \<Rightarrow> rat list" where
  "penalty_loop n matched_golden_boxes max_ious =
     fold (\<lambda>idx acc. if idx \<notin> matched_golden_boxes then acc @ [0] else acc) [0..<n] max_ious"

definition multi_intersection_over_union ::
  "float_ops \<Rightarrow> TextBox list \<Rightarrow> TextBox list \<Rightarrow> error + score" where
  "multi_intersection_over_union ops detected_boxes gold_boxes =
     (case detected_loop ops detected_boxes gold_boxes ({}, []) of
        Inl e \<Rightarrow> Inl e
      | Inr (matched_golden_boxes, max_ious) \<Rightarrow>
          Inr (np_mean ops (penalty_loop (length gold_boxes) matched_golden_boxes max_ious)))"

subsection \<open>The evaluator as the specification words it\<close>

text \<open>
  These follow the specification, not the code: the ratio of the intersection area to the
  union area (exact, and as the double the float division returns), the best ratio of a
  detected region over all gold regions, the gold indices that are an arg-max of some
  detected region, and the mean of the best ratios together with one zero for every gold
  index that is never an arg-max.
\<close>

definition spec_area :: "TextBox \<Rightarrow> int" where
  "spec_area r = (h r + 1) * (w r + 1)"

definition spec_intersection :: "TextBox \<Rightarrow> TextBox \<Rightarrow> int" where
  "spec_intersection a b =
     max 0 (min (x a + w a) (x b + w b) - max (x a) (x b) + 1) *
     max 0 (min (y a + h a) (y b + h b) - max (y a) (y b) + 1)"

definition spec_iou :: "TextBox \<Rightarrow> TextBox \<Rightarrow> rat" where
  "spec_iou a b =
     of_int (spec_intersection a b) /
     of_int (spec_area a + spec_area b - spec_intersection a b)"

definition spec_iou_fl :: "float_ops \<Rightarrow> TextBox \<Rightarrow> TextBox \<Rightarrow> rat" where
  "spec_iou_fl ops a b =
     fl_div ops (spec_intersection a b)
       (spec_area a + spec_area b - spec_intersection a b)"

definition spec_best_iou :: "float_ops \<Rightarrow> TextBox \<Rightarrow> TextBox list \<Rightarrow> rat" where
  "spec_best_iou ops d gold = Max (set (map (spec_iou_fl ops d) gold))"

definition spec_is_argmax :: "float_ops \<Rightarrow> TextBox list \<Rightarrow> TextBox list \<Rightarrow> nat \<Rightarrow> bool" where
  "spec_is_argmax ops detected gold j =
     list_ex (\<lambda>d. spec_iou_fl ops d (gold ! j) = spec_best_iou ops d gold) detected"

definition spec_terms :: "float_ops \<Rightarrow> TextBox list \<Rightarrow> TextBox list \<Rightarrow> rat list" where
  "spec_terms ops detected gold =
     map (\<lambda>d. spec_best_iou ops d gold) detected @
     map (\<lambda>j. 0) (filter (\<lambda>j. \<not> spec_is_argmax ops detected gold j) [0..<length gold])"

definition spec_average_best_iou :: "float_ops \<Rightarrow> TextBox list \<Rightarrow> TextBox list \<Rightarrow> rat" where
  "spec_average_best_iou ops detected gold = fl_mean ops (spec_terms ops detected gold)"

section \<open>Merging nearby boxes (utils.py)\<close>

text \<open>
  \<open>should_merge\<close>, \<open>merge\<close> and \<open>merge_with_box\<close> are closures over \<open>max_distance\<close>,
  which is their first argument here. \<open>itertools.compress\<close> keeps the data whose selector
  is true, and \<open>sum\<close> of a list of booleans counts the true ones.
\<close>

definition should_merge :: "int \<Rightarrow> TextBox \<Rightarrow> TextBox \<Rightarrow> bool" where
  "should_merge max_distance box1 box2 =
     (let y_overlap = overlap_y box1 box2;
          x_overlap = overlap_x box1 box2
      in (x_overlap > 0 \<and> - y_overlap < max_distance) \<or>
         (y_overlap > 0 \<and> - x_overlap < max_distance))"

fun py_min_int :: "int list \<Rightarrow> error + int" where
  "py_min_int [] = Inl ValueError"
| "py_min_int (v # vs) = Inr (fold min vs v)"

fun py_max_int :: "int list \<Rightarrow> error + int" where
  "py_max_int [] = Inl ValueError"
| "py_max_int (v # vs) = Inr (fold max vs v)"

definition merge :: "TextBox list \<Rightarrow> error + TextBox" where
  "merge bs =
     (case (py_min_int (map y bs), py_min_int (map x bs),
            py_max_int (map (\<lambda>b. y b + h b) bs), py_max_int (map (\<lambda>b. x b + w b) bs)) of
        (Inr tl0, Inr tl1, Inr br0, Inr br1) \<Rightarrow>
          Inr \<lparr>y = tl0, x = tl1, h = br0 - tl0, w = br1 - tl1, box_text = None\<rparr>
      | _ \<Rightarrow> Inl ValueError)"

definition compress :: "'a list \<Rightarrow> bool list \<Rightarrow> 'a list" where
  "compress data selectors = map fst (filter snd (zip data selectors))"

definition merge_with_box :: "int \<Rightarrow> TextBox \<Rightarrow> TextBox list \<Rightarrow> error + TextBox list" where
  "merge_with_box max_distance ref_box other_boxes =
     (let should_merge_with_ref = map (should_merge max_distance ref_box) other_boxes
      in if sum_list (map of_bool should_merge_with_ref) = (0::nat)
         then Inr ([ref_box] @ other_boxes)
         else
           (let to_merge = compress other_boxes should_merge_with_ref
            in case merge ([ref_box] @ to_merge) of
                 Inl e \<Rightarrow> Inl e
               | Inr merged_box \<Rightarrow>
                   (let should_keep = map Not should_merge_with_ref;
                        to_keep = compress other_boxes should_keep
                    in Inr ([merged_box] @ to_keep))))"

text \<open>
  One pass of the \<open>while\<close> body at \<open>ref_idx\<close>: the new \<open>curr_boxes\<close> and the new
  \<open>ref_idx\<close> (\<open>before\<close> and \<open>after\<close> are \<open>boxes_before\<close> and \<open>boxes_after\<close> here). The loop guard keeps \<open>ref_idx\<close> below the length, so the index is in range.
\<close>

definition merge_pass :: "int \<Rightarrow> TextBox list \<Rightarrow> nat \<Rightarrow> error + TextBox list \<times> nat" where
  "merge_pass max_distance curr_boxes ref_idx =
     (let boxes_before = take ref_idx curr_boxes
      in case merge_with_box max_distance (curr_boxes ! ref_idx) (drop ref_idx curr_boxes) of
           Inl e \<Rightarrow> Inl e
         | Inr boxes_after \<Rightarrow>
             Inr (boxes_before @ boxes_after,
                  if length boxes_before + length boxes_after = length curr_boxes
                  then ref_idx + 1 else ref_idx))"

text \<open>
  The \<open>while\<close> loop may run forever, so it is a partial function: \<open>None\<close> is a run that
  never returns, \<open>Some (Inl e)\<close> a run that raises, \<open>Some (Inr bs)\<close> a run that returns.
\<close>

partial_function (option) merge_loop ::
  "int \<Rightarrow> TextBox list \<Rightarrow> nat \<Rightarrow> (error + TextBox list) option" where
  "merge_loop max_distance curr_boxes ref_idx =
     (if int ref_idx < int (length curr_boxes) - 1
      then (case merge_pass max_distance curr_boxes ref_idx of
              Inl e \<Rightarrow> Some (Inl e)
            | Inr (curr_boxes', ref_idx') \<Rightarrow> merge_loop max_distance curr_boxes' ref_idx')
      else Some (Inr curr_boxes))"

declare merge_loop.simps [code]

definition merge_nearby_boxes :: "TextBox list \<Rightarrow> int \<Rightarrow> (error + TextBox list) option" where
  "merge_nearby_boxes boxes max_distance =
     (if length boxes \<le> 1 then Some (Inr boxes) else merge_loop max_distance boxes 0)"

text \<open>
  The box at \<open>ref_idx\<close> merges with no box of \<open>curr_boxes[ref_idx:]\<close>, itself included.
\<close>

definition ref_never_merges :: "int \<Rightarrow> TextBox list \<Rightarrow> nat \<Rightarrow> bool" where
  "ref_never_merges max_distance curr_boxes ref_idx =
     (ref_idx < length curr_boxes \<and>
      list_all (\<lambda>b. \<not> should_merge max_distance (curr_boxes ! ref_idx) b)
        (drop ref_idx curr_boxes))"

text \<open>The smallest rectangle enclosing two boxes; it carries no label.\<close>

definition enclosing :: "TextBox \<Rightarrow> TextBox \<Rightarrow> TextBox" where
  "enclosing a b =
     \<lparr>y = min (y a) (y b), x = min (x a) (x b),
      h = max (y a + h a) (y b + h b) - min (y a) (y b),
      w = max (x a + w a) (x b + w b) - min (x a) (x b),
      box_text = None\<rparr>"

section \<open>The convergence loop (detextifier.py)\<close>

text \<open>
  The text detector and the in-painter are injected objects: any two operations on a hidden
  state \<open>'s\<close> that return a value or raise an exception \<open>'e\<close>. Every call is logged with
  its arguments, so that the calls can be counted and their inputs inspected. Images are
  values of an arbitrary type, so \<open>in_image.copy()\<close> is the image itself.
\<close>

record ('s, 'e, 'img) capabilities =
  detect_text :: "'s \<Rightarrow> 'img \<Rightarrow> ('e + TextBox list) \<times> 's"
  inpaint :: "'s \<Rightarrow> 'img \<Rightarrow> TextBox list \<Rightarrow> string \<Rightarrow> ('e + 'img) \<times> 's"

datatype ('e, 'img) call =
  DetectCall 'img "'e + TextBox list"
| InpaintCall 'img "TextBox list" string "'e + 'img"

record ('s, 'e, 'img) world =
  cap_state :: 's
  calls :: "('e, 'img) call list"

text \<open>The three ways out of the \<open>for\<close> loop.\<close>

datatype ('e, 'img) loop_exit = Break 'img | Exhausted 'img | Raised 'e

fun retry_loop ::
  "('s, 'e, 'img) capabilities \<Rightarrow> string \<Rightarrow> nat \<Rightarrow> 'img \<Rightarrow> ('s, 'e, 'img) world
     \<Rightarrow> ('e, 'img) loop_exit \<times> ('s, 'e, 'img) world" where
  "retry_loop caps prompt 0 out_image wd = (Exhausted out_image, wd)"
| "retry_loop caps prompt (Suc n) out_image wd =
     (case detect_text caps (cap_state wd) out_image of
        (r, s1) \<Rightarrow>
          (let wd1 = \<lparr>cap_state = s1, calls = calls wd @ [DetectCall out_image r]\<rparr>
           in case r of
                Inl e \<Rightarrow> (Raised e, wd1)
              | Inr text_boxes \<Rightarrow>
                  if text_boxes = [] then (Break out_image, wd1)
                  else
                    (case inpaint caps s1 out_image text_boxes prompt of
                       (r', s2) \<Rightarrow>
                         (let wd2 = \<lparr>cap_state = s2,
                                     calls = calls wd1 @
                                       [InpaintCall out_image text_boxes prompt r']\<rparr>
                          in case r' of
                               Inl e \<Rightarrow> (Raised e, wd2)
                             | Inr out_image' \<Rightarrow> retry_loop caps prompt n out_image' wd2))))"

text \<open>\<open>range(max_retries)\<close> is empty when \<open>max_retries\<close> is not positive.\<close>

definition detextify ::
  "('s, 'e, 'img) capabilities \<Rightarrow> 'img \<Rightarrow> string \<Rightarrow> int \<Rightarrow> ('s, 'e, 'img) world
     \<Rightarrow> ('e + 'img) \<times> ('s, 'e, 'img) world" where
  "detextify caps in_image prompt max_retries wd =
     (let out_image = in_image
      in case retry_loop caps prompt (nat max_retries) out_image wd of
           (Break img, wd') \<Rightarrow> (Inr img, wd')
         | (Exhausted img, wd') \<Rightarrow> (Inr img, wd')
         | (Raised e, wd') \<Rightarrow> (Inl e, wd'))"

definition call_error :: "('e, 'img) call \<Rightarrow> 'e option" where
  "call_error c =
     (case c of
        DetectCall img (Inl e) \<Rightarrow> Some e
      | DetectCall img (Inr bs) \<Rightarrow> None
      | InpaintCall img bs p (Inl e) \<Rightarrow> Some e
      | InpaintCall img bs p (Inr img') \<Rightarrow> None)"

definition detector_calls :: "('e, 'img) call list \<Rightarrow> nat" where
  "detector_calls cs =
     length (filter (\<lambda>c. case c of DetectCall img r \<Rightarrow> True | InpaintCall img bs p r \<Rightarrow> False) cs)"

definition repairer_calls :: "('e, 'img) call list \<Rightarrow> nat" where
  "repairer_calls cs =
     length (filter (\<lambda>c. case c of DetectCall img r \<Rightarrow> False | InpaintCall img bs p r \<Rightarrow> True) cs)"

subsection \<open>Test doubles\<close>

text \<open>
  Stub capabilities for the loop scenarios: the hidden state counts the calls made so far,
  an image is a version number, and the in-painter returns the next version.
\<close>

definition stub_box :: TextBox where
  "stub_box = \<lparr>y = 0, x = 0, h = 5, w = 5, box_text = Some ''text''\<rparr>"

definition stub_caps :: "TextBox list \<Rightarrow> bool \<Rightarrow> (nat, string, nat) capabilities" where
  "stub_caps detected repairer_fails =
     \<lparr>detect_text = (\<lambda>s img. (Inr detected, s + 1)),
      inpaint = (\<lambda>s img bs p.
        (if repairer_fails then Inl ''repair failed'' else Inr (img + 1), s + 1))\<rparr>"

definition fresh_world :: "(nat, string, nat) world" where
  "fresh_world = \<lparr>cap_state = 0, calls = []\<rparr>"

section \<open>Symmetry of intersection over union\<close>

text \<open>
  Claim C9. For every pair of boxes, \<open>intersection_over_union a b\<close> and
  \<open>intersection_over_union b a\<close> are the same outcome: the same ratio, or the same
  \<open>ZeroDivisionError\<close> when the divisor is zero.
\<close>

theorem intersection_over_union_symmetric:
  "intersection_over_union a b = intersection_over_union b a"
  by (simp add: intersection_over_union_def Let_def max.commute min.commute
      add.commute mult.commute)

section \<open>Intersection over union: the ratio and its bounds\<close>

lemma spec_intersection_nonneg: "0 \<le> spec_intersection a b"
  by (simp add: spec_intersection_def)

lemma spec_intersection_le_area1:
  assumes "valid_box a"
  shows "spec_intersection a b \<le> spec_area a"
proof -
  have wx: "max 0 (min (x a + w a) (x b + w b) - max (x a) (x b) + 1) \<le> w a + 1"
    using assms by (simp add: valid_box_def)
  have hy: "max 0 (min (y a + h a) (y b + h b) - max (y a) (y b) + 1) \<le> h a + 1"
    using assms by (simp add: valid_box_def)
  have "spec_intersection a b \<le> (w a + 1) * (h a + 1)"
    unfolding spec_intersection_def
    by (rule mult_mono [OF wx hy]) (use assms in \<open>simp_all add: valid_box_def\<close>)
  then show ?thesis by (simp add: spec_area_def mult.commute)
qed

lemma spec_intersection_commute: "spec_intersection a b = spec_intersection b a"
  by (simp add: spec_intersection_def max.commute min.commute)

lemma spec_intersection_le_area2:
  "valid_box b \<Longrightarrow> spec_intersection a b \<le> spec_area b"
  using spec_intersection_le_area1 [of b a] by (simp add: spec_intersection_commute)

lemma spec_area_pos: "valid_box a \<Longrightarrow> 0 < spec_area a"
  by (simp add: spec_area_def valid_box_def)

lemma spec_divisor_pos:
  assumes "valid_box a" "valid_box b"
  shows "0 < spec_area a + spec_area b - spec_intersection a b"
  using spec_intersection_le_area1 [OF assms(1), of b] spec_area_pos [OF assms(2)] by linarith

lemma intersection_over_union_unfold:
  "intersection_over_union a b =
     (if spec_area a + spec_area b - spec_intersection a b = 0 then Inl ZeroDivisionError
      else Inr (spec_iou a b))"
  by (simp add: intersection_over_union_def Let_def spec_iou_def spec_area_def
      spec_intersection_def)

lemma intersection_over_union_valid:
  "valid_box a \<Longrightarrow> valid_box b \<Longrightarrow> intersection_over_union a b = Inr (spec_iou a b)"
  using spec_divisor_pos [of a b] by (simp add: intersection_over_union_unfold)

lemma spec_iou_bounds:
  assumes "valid_box a" "valid_box b"
  shows "0 \<le> spec_iou a b \<and> spec_iou a b \<le> 1"
proof -
  let ?i = "spec_intersection a b"
  let ?d = "spec_area a + spec_area b - ?i"
  have d: "0 < ?d" by (rule spec_divisor_pos [OF assms])
  have le: "?i \<le> ?d"
    using spec_intersection_le_area1 [OF assms(1), of b] spec_intersection_le_area2 [OF assms(2), of a]
    by linarith
  have "0 \<le> (of_int ?i :: rat) / of_int ?d"
    using d spec_intersection_nonneg [of a b] by simp
  moreover have "(of_int ?i :: rat) / of_int ?d \<le> 1"
    using d le by (simp add: divide_le_eq_1)
  ultimately show ?thesis by (simp add: spec_iou_def)
qed

text \<open>
  Claim C8. For boxes with nonnegative height and width the divisor
  \<open>area a + area b - intersection\<close> is strictly positive, so the division is defined;
  the result is the intersection area \<open>max 0 (xb - xa + 1) * max 0 (yb - ya + 1)\<close> over
  that divisor, as an exact rational, and it lies between 0 and 1.
\<close>

theorem iou_well_defined_in_unit_interval:
  assumes "valid_box a" "valid_box b"
  shows "0 < (h a + 1) * (w a + 1) + (h b + 1) * (w b + 1)
           - max 0 (min (x a + w a) (x b + w b) - max (x a) (x b) + 1) *
             max 0 (min (y a + h a) (y b + h b) - max (y a) (y b) + 1)
       \<and> intersection_over_union a b =
           Inr (of_int (max 0 (min (x a + w a) (x b + w b) - max (x a) (x b) + 1) *
                        max 0 (min (y a + h a) (y b + h b) - max (y a) (y b) + 1)) /
                of_int ((h a + 1) * (w a + 1) + (h b + 1) * (w b + 1)
                  - max 0 (min (x a + w a) (x b + w b) - max (x a) (x b) + 1) *
                    max 0 (min (y a + h a) (y b + h b) - max (y a) (y b) + 1)))
       \<and> (\<exists>r. intersection_over_union a b = Inr r \<and> 0 \<le> r \<and> r \<le> 1)"
proof -
  have 1: "0 < spec_area a + spec_area b - spec_intersection a b"
    by (rule spec_divisor_pos [OF assms])
  have 2: "intersection_over_union a b = Inr (spec_iou a b)"
    by (rule intersection_over_union_valid [OF assms])
  have 3: "0 \<le> spec_iou a b \<and> spec_iou a b \<le> 1"
    by (rule spec_iou_bounds [OF assms])
  have 4: "\<exists>r. intersection_over_union a b = Inr r \<and> 0 \<le> r \<and> r \<le> 1"
    using 2 3 by blast
  show ?thesis
    using 1 2 4 unfolding spec_iou_def spec_area_def spec_intersection_def
    by (intro conjI) assumption+
qed

theorem iou_well_defined_witness:
  "valid_box \<lparr>y = 0, x = 0, h = 5, w = 5, box_text = None\<rparr>
   \<and> valid_box \<lparr>y = 2, x = 3, h = 5, w = 5, box_text = None\<rparr>
   \<and> intersection_over_union \<lparr>y = 0, x = 0, h = 5, w = 5, box_text = None\<rparr>
        \<lparr>y = 2, x = 3, h = 5, w = 5, box_text = None\<rparr> = Inr (12 / 60)"
proof -
  have v1: "valid_box \<lparr>y = 0, x = 0, h = 5, w = 5, box_text = None\<rparr>"
    by (simp add: valid_box_def)
  have v2: "valid_box \<lparr>y = 2, x = 3, h = 5, w = 5, box_text = None\<rparr>"
    by (simp add: valid_box_def)
  from iou_well_defined_in_unit_interval [OF v1 v2] show ?thesis
    using v1 v2 by simp
qed

section \<open>Regions without positive overlap\<close>

lemma spec_intersection_overlap:
  "spec_intersection a b = max 0 (overlap_x a b + 1) * max 0 (overlap_y a b + 1)"
  by (simp add: spec_intersection_def overlap_x_def overlap_y_def)

lemma spec_intersection_no_overlap:
  assumes "overlap_x a b \<le> 0" "overlap_y a b \<le> 0"
  shows "spec_intersection a b = (if overlap_x a b = 0 \<and> overlap_y a b = 0 then 1 else 0)"
proof (cases "overlap_x a b = 0 \<and> overlap_y a b = 0")
  case True
  then show ?thesis by (simp add: spec_intersection_overlap)
next
  case False
  with assms have "overlap_x a b + 1 \<le> 0 \<or> overlap_y a b + 1 \<le> 0" by linarith
  then have "max 0 (overlap_x a b + 1) = 0 \<or> max 0 (overlap_y a b + 1) = 0"
    by (auto simp: max_def)
  with False show ?thesis by (auto simp: spec_intersection_overlap)
qed

text \<open>
  Claim C1, as the code has it. For boxes with nonnegative height and width and no positive
  overlap on either axis, \<open>boxes_intersect\<close> is false, and \<open>intersection_over_union\<close> is
  0 as soon as the overlap is negative on one axis. When the overlap is exactly zero on both
  axes (boxes touching at a corner) the inclusive pixel count gives an intersection of one
  pixel, and the result is \<open>1 / (area a + area b - 1)\<close>, not 0.
\<close>

theorem no_overlap_iou:
  assumes "valid_box a" "valid_box b" "overlap_x a b \<le> 0" "overlap_y a b \<le> 0"
  shows "\<not> boxes_intersect a b \<and>
         intersection_over_union a b =
           Inr (if overlap_x a b = 0 \<and> overlap_y a b = 0
                then 1 / of_int ((h a + 1) * (w a + 1) + (h b + 1) * (w b + 1) - 1)
                else 0)"
proof -
  have "\<not> boxes_intersect a b"
    using assms(3) by (simp add: boxes_intersect_def)
  moreover have "intersection_over_union a b = Inr (spec_iou a b)"
    by (rule intersection_over_union_valid [OF assms(1,2)])
  moreover have "spec_iou a b =
      (if overlap_x a b = 0 \<and> overlap_y a b = 0
       then 1 / of_int ((h a + 1) * (w a + 1) + (h b + 1) * (w b + 1) - 1) else 0)"
    by (simp add: spec_iou_def spec_intersection_no_overlap [OF assms(3,4)] spec_area_def)
  ultimately show ?thesis by simp
qed

theorem no_overlap_iou_witness:
  "valid_box \<lparr>y = 0, x = 0, h = 5, w = 5, box_text = None\<rparr>
   \<and> valid_box \<lparr>y = 5, x = 7, h = 5, w = 5, box_text = None\<rparr>
   \<and> overlap_x \<lparr>y = 0, x = 0, h = 5, w = 5, box_text = None\<rparr>
        \<lparr>y = 5, x = 7, h = 5, w = 5, box_text = None\<rparr> \<le> 0
   \<and> overlap_y \<lparr>y = 0, x = 0, h = 5, w = 5, box_text = None\<rparr>
        \<lparr>y = 5, x = 7, h = 5, w = 5, box_text = None\<rparr> \<le> 0
   \<and> \<not> boxes_intersect \<lparr>y = 0, x = 0, h = 5, w = 5, box_text = None\<rparr>
        \<lparr>y = 5, x = 7, h = 5, w = 5, box_text = None\<rparr>
   \<and> intersection_over_union \<lparr>y = 0, x = 0, h = 5, w = 5, box_text = None\<rparr>
        \<lparr>y = 5, x = 7, h = 5, w = 5, box_text = None\<rparr> = Inr 0"
proof -
  let ?a = "\<lparr>y = 0, x = 0, h = 5, w = 5, box_text = None\<rparr>"
  let ?b = "\<lparr>y = 5, x = 7, h = 5, w = 5, box_text = None\<rparr>"
  have v1: "valid_box ?a" and v2: "valid_box ?b" by (simp_all add: valid_box_def)
  have ox: "overlap_x ?a ?b \<le> 0" by (simp add: overlap_x_def)
  have oy: "overlap_y ?a ?b \<le> 0" by (simp add: overlap_y_def)
  have nx: "overlap_x ?a ?b \<noteq> 0" by (simp add: overlap_x_def)
  from no_overlap_iou [OF v1 v2 ox oy] show ?thesis
    using v1 v2 ox oy nx by simp
qed

text \<open>
  The claim as stated fails where two boxes touch at a corner: the overlap is zero on both
  axes, yet the ratio is \<open>1 / 71\<close>.
\<close>

theorem touching_boxes_iou_counterexample:
  "\<not> (valid_box \<lparr>y = 0, x = 0, h = 5, w = 5, box_text = None\<rparr>
      \<and> valid_box \<lparr>y = 5, x = 5, h = 5, w = 5, box_text = None\<rparr>
      \<and> overlap_x \<lparr>y = 0, x = 0, h = 5, w = 5, box_text = None\<rparr>
           \<lparr>y = 5, x = 5, h = 5, w = 5, box_text = None\<rparr> \<le> 0
      \<and> overlap_y \<lparr>y = 0, x = 0, h = 5, w = 5, box_text = None\<rparr>
           \<lparr>y = 5, x = 5, h = 5, w = 5, box_text = None\<rparr> \<le> 0
      \<longrightarrow> \<not> boxes_intersect \<lparr>y = 0, x = 0, h = 5, w = 5, box_text = None\<rparr>
             \<lparr>y = 5, x = 5, h = 5, w = 5, box_text = None\<rparr>
        \<and> intersection_over_union \<lparr>y = 0, x = 0, h = 5, w = 5, box_text = None\<rparr>
             \<lparr>y = 5, x = 5, h = 5, w = 5, box_text = None\<rparr> = Inr 0)"
  by (simp add: valid_box_def overlap_x_def overlap_y_def intersection_over_union_def)

lemma touching_boxes_iou_value:
  "intersection_over_union \<lparr>y = 0, x = 0, h = 5, w = 5, box_text = None\<rparr>
     \<lparr>y = 5, x = 5, h = 5, w = 5, box_text = None\<rparr> = Inr (1 / 71)"
  by (simp add: intersection_over_union_def)

section \<open>The convergence loop\<close>

lemma detextify_retry_loop:
  "detextify caps in_image prompt max_retries wd =
     (case retry_loop caps prompt (nat max_retries) in_image wd of
        (Break img, wd') \<Rightarrow> (Inr img, wd')
      | (Exhausted img, wd') \<Rightarrow> (Inr img, wd')
      | (Raised e, wd') \<Rightarrow> (Inl e, wd'))"
  by (simp add: detextify_def)

lemma retry_loop_detect_empty:
  assumes "detect_text caps (cap_state wd) img = (Inr [], s1)"
  shows "retry_loop caps prompt (Suc n) img wd =
           (Break img, \<lparr>cap_state = s1, calls = calls wd @ [DetectCall img (Inr [])]\<rparr>)"
  using assms by simp

lemma retry_loop_detect_raises:
  assumes "detect_text caps (cap_state wd) img = (Inl e, s1)"
  shows "retry_loop caps prompt (Suc n) img wd =
           (Raised e, \<lparr>cap_state = s1, calls = calls wd @ [DetectCall img (Inl e)]\<rparr>)"
  using assms by simp

lemma retry_loop_inpaint_raises:
  assumes "detect_text caps (cap_state wd) img = (Inr bs, s1)" "bs \<noteq> []"
    and "inpaint caps s1 img bs prompt = (Inl e, s2)"
  shows "retry_loop caps prompt (Suc n) img wd =
           (Raised e, \<lparr>cap_state = s2, calls = calls wd @
              [DetectCall img (Inr bs), InpaintCall img bs prompt (Inl e)]\<rparr>)"
  using assms by simp

lemma retry_loop_repaired:
  assumes "detect_text caps (cap_state wd) img = (Inr bs, s1)" "bs \<noteq> []"
    and "inpaint caps s1 img bs prompt = (Inr img', s2)"
  shows "retry_loop caps prompt (Suc n) img wd =
           retry_loop caps prompt n img' \<lparr>cap_state = s2, calls = calls wd @
              [DetectCall img (Inr bs), InpaintCall img bs prompt (Inr img')]\<rparr>"
  using assms by simp

text \<open>
  Claim C5. With \<open>max_retries \<ge> 1\<close>, when the first detector call returns no box,
  \<open>detextify\<close> returns the input image, and the log holds that one detector call and no
  in-painter call.
\<close>

theorem detextify_empty_first_detection:
  assumes "1 \<le> max_retries"
    and "detect_text caps (cap_state wd) in_image = (Inr [], s1)"
  shows "detextify caps in_image prompt max_retries wd =
           (Inr in_image,
            \<lparr>cap_state = s1, calls = calls wd @ [DetectCall in_image (Inr [])]\<rparr>)"
proof -
  from assms(1) obtain n where n: "nat max_retries = Suc n"
    by (cases "nat max_retries") auto
  show ?thesis
    unfolding detextify_retry_loop n retry_loop_detect_empty [OF assms(2)] by simp
qed

theorem detextify_empty_first_detection_witness:
  "(1::int) \<le> 5
   \<and> detect_text (stub_caps [] False) (cap_state fresh_world) (7::nat) = (Inr [], 1)
   \<and> detextify (stub_caps [] False) 7 ''a photo'' 5 fresh_world =
       (Inr 7, \<lparr>cap_state = 1, calls = [DetectCall 7 (Inr [])]\<rparr>)
   \<and> detector_calls (calls (snd (detextify (stub_caps [] False) 7 ''a photo'' 5 fresh_world))) = 1
   \<and> repairer_calls (calls (snd (detextify (stub_caps [] False) 7 ''a photo'' 5 fresh_world))) = 0"
proof -
  have m: "(1::int) \<le> 5" by simp
  have d: "detect_text (stub_caps [] False) (cap_state fresh_world) (7::nat) = (Inr [], 1)"
    by (simp add: stub_caps_def fresh_world_def)
  from detextify_empty_first_detection [OF m d, of "''a photo''"] show ?thesis
    using d by (simp add: fresh_world_def detector_calls_def repairer_calls_def)
qed

text \<open>
  Claim C6. With \<open>max_retries = 3\<close>, when each of the three detector calls returns a
  non-empty list and each in-painter call returns an image, the loop leaves by exhausting
  its range (not by \<open>break\<close>), \<open>detextify\<close> returns the image of the third in-painter
  call, and the log holds three detector calls and three in-painter calls in alternation,
  each in-painter call receiving the image returned by the previous one.
\<close>

theorem detextify_budget_exhausted:
  assumes d0: "detect_text caps (cap_state wd) img0 = (Inr b0, s1)" and n0: "b0 \<noteq> []"
    and r0: "inpaint caps s1 img0 b0 prompt = (Inr img1, s2)"
    and d1: "detect_text caps s2 img1 = (Inr b1, s3)" and n1: "b1 \<noteq> []"
    and r1: "inpaint caps s3 img1 b1 prompt = (Inr img2, s4)"
    and d2: "detect_text caps s4 img2 = (Inr b2, s5)" and n2: "b2 \<noteq> []"
    and r2: "inpaint caps s5 img2 b2 prompt = (Inr img3, s6)"
  shows "retry_loop caps prompt 3 img0 wd =
           (Exhausted img3,
            \<lparr>cap_state = s6, calls = calls wd @
               [DetectCall img0 (Inr b0), InpaintCall img0 b0 prompt (Inr img1),
                DetectCall img1 (Inr b1), InpaintCall img1 b1 prompt (Inr img2),
                DetectCall img2 (Inr b2), InpaintCall img2 b2 prompt (Inr img3)]\<rparr>)
       \<and> detextify caps img0 prompt 3 wd =
           (Inr img3,
            \<lparr>cap_state = s6, calls = calls wd @
               [DetectCall img0 (Inr b0), InpaintCall img0 b0 prompt (Inr img1),
                DetectCall img1 (Inr b1), InpaintCall img1 b1 prompt (Inr img2),
                DetectCall img2 (Inr b2), InpaintCall img2 b2 prompt (Inr img3)]\<rparr>)
       \<and> detector_calls (calls (snd (detextify caps img0 prompt 3 wd))) =
           detector_calls (calls wd) + 3
       \<and> repairer_calls (calls (snd (detextify caps img0 prompt 3 wd))) =
           repairer_calls (calls wd) + 3"
proof -
  let ?w1 = "\<lparr>cap_state = s2, calls = calls wd @
      [DetectCall img0 (Inr b0), InpaintCall img0 b0 prompt (Inr img1)]\<rparr>"
  let ?w2 = "\<lparr>cap_state = s4, calls = calls ?w1 @
      [DetectCall img1 (Inr b1), InpaintCall img1 b1 prompt (Inr img2)]\<rparr>"
  let ?w3 = "\<lparr>cap_state = s6, calls = calls ?w2 @
      [DetectCall img2 (Inr b2), InpaintCall img2 b2 prompt (Inr img3)]\<rparr>"
  have three: "(3::nat) = Suc (Suc (Suc 0))" by simp
  have "retry_loop caps prompt (Suc (Suc (Suc 0))) img0 wd
          = retry_loop caps prompt (Suc (Suc 0)) img1 ?w1"
    by (rule retry_loop_repaired [OF d0 n0 r0])
  also have "\<dots> = retry_loop caps prompt (Suc 0) img2 ?w2"
    using retry_loop_repaired [of caps ?w1 img1 b1 s3 prompt img2 s4 "Suc 0"] d1 n1 r1
    by simp
  also have "\<dots> = retry_loop caps prompt 0 img3 ?w3"
    using retry_loop_repaired [of caps ?w2 img2 b2 s5 prompt img3 s6 0] d2 n2 r2
    by simp
  also have "\<dots> = (Exhausted img3, ?w3)" by simp
  finally have loop: "retry_loop caps prompt 3 img0 wd = (Exhausted img3, ?w3)"
    by (simp only: three)
  have det: "detextify caps img0 prompt 3 wd = (Inr img3, ?w3)"
    by (simp add: detextify_retry_loop loop)
  show ?thesis
    unfolding det unfolding loop by (simp add: detector_calls_def repairer_calls_def)
qed

theorem detextify_budget_exhausted_witness:
  "detextify (stub_caps [stub_box] False) 0 ''a photo'' 3 fresh_world =
     (Inr 3,
      \<lparr>cap_state = 6, calls =
         [DetectCall 0 (Inr [stub_box]), InpaintCall 0 [stub_box] ''a photo'' (Inr 1),
          DetectCall 1 (Inr [stub_box]), InpaintCall 1 [stub_box] ''a photo'' (Inr 2),
          DetectCall 2 (Inr [stub_box]), InpaintCall 2 [stub_box] ''a photo'' (Inr 3)]\<rparr>)
   \<and> retry_loop (stub_caps [stub_box] False) ''a photo'' 3 0 fresh_world =
     (Exhausted 3,
      \<lparr>cap_state = 6, calls =
         [DetectCall 0 (Inr [stub_box]), InpaintCall 0 [stub_box] ''a photo'' (Inr 1),
          DetectCall 1 (Inr [stub_box]), InpaintCall 1 [stub_box] ''a photo'' (Inr 2),
          DetectCall 2 (Inr [stub_box]), InpaintCall 2 [stub_box] ''a photo'' (Inr 3)]\<rparr>)"
proof -
  let ?c = "stub_caps [stub_box] False"
  have d0: "detect_text ?c (cap_state fresh_world) (0::nat) = (Inr [stub_box], 1)"
    by (simp add: stub_caps_def fresh_world_def)
  have r0: "inpaint ?c 1 0 [stub_box] ''a photo'' = (Inr 1, 2)" by (simp add: stub_caps_def)
  have d1: "detect_text ?c 2 1 = (Inr [stub_box], 3)" by (simp add: stub_caps_def)
  have r1: "inpaint ?c 3 1 [stub_box] ''a photo'' = (Inr 2, 4)" by (simp add: stub_caps_def)
  have d2: "detect_text ?c 4 2 = (Inr [stub_box], 5)" by (simp add: stub_caps_def)
  have r2: "inpaint ?c 5 2 [stub_box] ''a photo'' = (Inr 3, 6)" by (simp add: stub_caps_def)
  have ne: "[stub_box] \<noteq> []" by simp
  from detextify_budget_exhausted [OF d0 ne r0 d1 ne r1 d2 ne r2] show ?thesis
    by (simp add: fresh_world_def)
qed

section \<open>Failures of the capabilities\<close>

lemma call_error_simps [simp]:
  "call_error (DetectCall img (Inl e)) = Some e"
  "call_error (DetectCall img (Inr bs)) = None"
  "call_error (InpaintCall img bs p (Inl e)) = Some e"
  "call_error (InpaintCall img bs p (Inr img')) = None"
  by (simp_all add: call_error_def)

text \<open>
  Whatever the capabilities do, the loop only appends to the log, no call before the last
  one has failed, and the loop leaves with \<open>Raised e\<close> exactly when its last call failed
  with \<open>e\<close>.
\<close>

lemma retry_loop_fail_fast:
  "retry_loop caps prompt n img wd = (ex, wd') \<Longrightarrow>
     \<exists>new. calls wd' = calls wd @ new \<and>
       list_all (\<lambda>c. call_error c = None) (butlast new) \<and>
       (case ex of
          Raised e \<Rightarrow> new \<noteq> [] \<and> call_error (last new) = Some e
        | Break i \<Rightarrow> list_all (\<lambda>c. call_error c = None) new
        | Exhausted i \<Rightarrow> list_all (\<lambda>c. call_error c = None) new)"
proof (induction n arbitrary: img wd)
  case 0
  then show ?case by auto
next
  case (Suc n)
  obtain r s1 where d: "detect_text caps (cap_state wd) img = (r, s1)"
    by (cases "detect_text caps (cap_state wd) img")
  show ?case
  proof (cases r)
    case (Inl e)
    with Suc.prems d show ?thesis by auto
  next
    case (Inr bs)
    show ?thesis
    proof (cases "bs = []")
      case True
      with Suc.prems d Inr show ?thesis by auto
    next
      case False
      obtain r' s2 where i: "inpaint caps s1 img bs prompt = (r', s2)"
        by (cases "inpaint caps s1 img bs prompt")
      show ?thesis
      proof (cases r')
        case (Inl e)
        with Suc.prems d Inr False i show ?thesis by auto
      next
        case (Inr img')
        let ?w2 = "\<lparr>cap_state = s2, calls = calls wd @
          [DetectCall img (Inr bs), InpaintCall img bs prompt (Inr img')]\<rparr>"
        from Suc.prems d \<open>r = Inr bs\<close> False i Inr
        have "retry_loop caps prompt n img' ?w2 = (ex, wd')" by simp
        from Suc.IH [OF this] obtain new where
          new: "calls wd' = calls ?w2 @ new"
            "list_all (\<lambda>c. call_error c = None) (butlast new)"
            "(case ex of
                Raised e \<Rightarrow> new \<noteq> [] \<and> call_error (last new) = Some e
              | Break i \<Rightarrow> list_all (\<lambda>c. call_error c = None) new
              | Exhausted i \<Rightarrow> list_all (\<lambda>c. call_error c = None) new)"
          by blast
        let ?new = "[DetectCall img (Inr bs), InpaintCall img bs prompt (Inr img')] @ new"
        have 1: "calls wd' = calls wd @ ?new" using new(1) by simp
        have 2: "list_all (\<lambda>c. call_error c = None) (butlast ?new)"
          using new(2) by (cases new) (simp_all add: butlast_append)
        have 3: "(case ex of
                Raised e \<Rightarrow> ?new \<noteq> [] \<and> call_error (last ?new) = Some e
              | Break i \<Rightarrow> list_all (\<lambda>c. call_error c = None) ?new
              | Exhausted i \<Rightarrow> list_all (\<lambda>c. call_error c = None) ?new)"
          using new(3) by (cases ex) simp_all
        from 1 2 3 show ?thesis by blast
      qed
    qed
  qed
qed

lemma detextify_fail_fast:
  assumes "detextify caps in_image prompt max_retries wd = (res, wd')"
  shows "\<exists>new. calls wd' = calls wd @ new \<and>
       list_all (\<lambda>c. call_error c = None) (butlast new) \<and>
       (case res of
          Inl e \<Rightarrow> new \<noteq> [] \<and> call_error (last new) = Some e
        | Inr img \<Rightarrow> list_all (\<lambda>c. call_error c = None) new)"
proof -
  obtain ex w1 where l: "retry_loop caps prompt (nat max_retries) in_image wd = (ex, w1)"
    by (cases "retry_loop caps prompt (nat max_retries) in_image wd")
  from assms l have w: "wd' = w1" and res: "res = (case ex of Break i \<Rightarrow> Inr i | Exhausted i \<Rightarrow> Inr i | Raised e \<Rightarrow> Inl e)"
    by (auto simp: detextify_retry_loop split: loop_exit.splits)
  from retry_loop_fail_fast [OF l] obtain new where
    new: "calls w1 = calls wd @ new"
      "list_all (\<lambda>c. call_error c = None) (butlast new)"
      "(case ex of
          Raised e \<Rightarrow> new \<noteq> [] \<and> call_error (last new) = Some e
        | Break i \<Rightarrow> list_all (\<lambda>c. call_error c = None) new
        | Exhausted i \<Rightarrow> list_all (\<lambda>c. call_error c = None) new)"
    by blast
  have "(case res of
          Inl e \<Rightarrow> new \<noteq> [] \<and> call_error (last new) = Some e
        | Inr img \<Rightarrow> list_all (\<lambda>c. call_error c = None) new)"
    using new(3) res by (cases ex) simp_all
  with new(1,2) w show ?thesis by blast
qed

lemma detextify_repairer_raises_first:
  assumes "1 \<le> max_retries"
    and "detect_text caps (cap_state wd) in_image = (Inr bs, s1)" "bs \<noteq> []"
    and "inpaint caps s1 in_image bs prompt = (Inl e, s2)"
  shows "detextify caps in_image prompt max_retries wd =
           (Inl e, \<lparr>cap_state = s2, calls = calls wd @
              [DetectCall in_image (Inr bs), InpaintCall in_image bs prompt (Inl e)]\<rparr>)"
proof -
  from assms(1) obtain n where n: "nat max_retries = Suc n"
    by (cases "nat max_retries") auto
  show ?thesis
    unfolding detextify_retry_loop n retry_loop_inpaint_raises [OF assms(2,3,4)] by simp
qed

lemma detextify_detector_raises_first:
  assumes "1 \<le> max_retries"
    and "detect_text caps (cap_state wd) in_image = (Inl e, s1)"
  shows "detextify caps in_image prompt max_retries wd =
           (Inl e, \<lparr>cap_state = s1, calls = calls wd @ [DetectCall in_image (Inl e)]\<rparr>)"
proof -
  from assms(1) obtain n where n: "nat max_retries = Suc n"
    by (cases "nat max_retries") auto
  show ?thesis
    unfolding detextify_retry_loop n retry_loop_detect_raises [OF assms(2)] by simp
qed

text \<open>
  Claim C7. \<open>detextify\<close> neither catches nor retries a failure of a capability: in every
  run the log only grows, no call but the last one has failed, and the run ends with the
  exception \<open>e\<close> exactly when its last call raised \<open>e\<close>. In particular, when the
  in-painter raises on its first call, the exception reaches the caller after one detector
  call and one in-painter call.
\<close>

theorem detextify_propagates_failures:
  "(detextify caps in_image prompt max_retries wd = (res, wd') \<longrightarrow>
      (\<exists>new. calls wd' = calls wd @ new \<and>
         list_all (\<lambda>c. call_error c = None) (butlast new) \<and>
         (case res of
            Inl e \<Rightarrow> new \<noteq> [] \<and> call_error (last new) = Some e
          | Inr img \<Rightarrow> list_all (\<lambda>c. call_error c = None) new)))
   \<and> (1 \<le> max_retries \<and> detect_text caps (cap_state wd) in_image = (Inr bs, s1) \<and> bs \<noteq> []
        \<and> inpaint caps s1 in_image bs prompt = (Inl e, s2) \<longrightarrow>
      detextify caps in_image prompt max_retries wd =
        (Inl e, \<lparr>cap_state = s2, calls = calls wd @
           [DetectCall in_image (Inr bs), InpaintCall in_image bs prompt (Inl e)]\<rparr>)
      \<and> detector_calls (calls (snd (detextify caps in_image prompt max_retries wd))) =
          detector_calls (calls wd) + 1
      \<and> repairer_calls (calls (snd (detextify caps in_image prompt max_retries wd))) =
          repairer_calls (calls wd) + 1)"
proof (intro conjI impI)
  assume "detextify caps in_image prompt max_retries wd = (res, wd')"
  then show "\<exists>new. calls wd' = calls wd @ new \<and>
         list_all (\<lambda>c. call_error c = None) (butlast new) \<and>
         (case res of
            Inl e \<Rightarrow> new \<noteq> [] \<and> call_error (last new) = Some e
          | Inr img \<Rightarrow> list_all (\<lambda>c. call_error c = None) new)"
    by (rule detextify_fail_fast)
next
  assume a: "1 \<le> max_retries \<and> detect_text caps (cap_state wd) in_image = (Inr bs, s1) \<and> bs \<noteq> []
        \<and> inpaint caps s1 in_image bs prompt = (Inl e, s2)"
  then have r: "detextify caps in_image prompt max_retries wd =
        (Inl e, \<lparr>cap_state = s2, calls = calls wd @
           [DetectCall in_image (Inr bs), InpaintCall in_image bs prompt (Inl e)]\<rparr>)"
    using detextify_repairer_raises_first [of max_retries caps wd in_image bs s1 prompt e s2]
    by blast
  show "detextify caps in_image prompt max_retries wd =
        (Inl e, \<lparr>cap_state = s2, calls = calls wd @
           [DetectCall in_image (Inr bs), InpaintCall in_image bs prompt (Inl e)]\<rparr>)"
    by (rule r)
  show "detector_calls (calls (snd (detextify caps in_image prompt max_retries wd))) =
          detector_calls (calls wd) + 1"
    unfolding r by (simp add: detector_calls_def)
  show "repairer_calls (calls (snd (detextify caps in_image prompt max_retries wd))) =
          repairer_calls (calls wd) + 1"
    unfolding r by (simp add: repairer_calls_def)
qed

theorem detextify_propagates_failures_witness:
  "detextify (stub_caps [stub_box] True) 0 ''a photo'' 5 fresh_world =
     (Inl ''repair failed'',
      \<lparr>cap_state = 2, calls =
         [DetectCall 0 (Inr [stub_box]),
          InpaintCall 0 [stub_box] ''a photo'' (Inl ''repair failed'')]\<rparr>)
   \<and> detector_calls (calls (snd
        (detextify (stub_caps [stub_box] True) 0 ''a photo'' 5 fresh_world))) = 1
   \<and> repairer_calls (calls (snd
        (detextify (stub_caps [stub_box] True) 0 ''a photo'' 5 fresh_world))) = 1
   \<and> (\<exists>new. calls (snd (detextify (stub_caps [stub_box] True) 0 ''a photo'' 5 fresh_world))
          = calls fresh_world @ new
        \<and> list_all (\<lambda>c. call_error c = None) (butlast new)
        \<and> new \<noteq> [] \<and> call_error (last new) = Some ''repair failed'')"
proof -
  let ?c = "stub_caps [stub_box] True"
  let ?w = "\<lparr>cap_state = 2, calls =
         [DetectCall 0 (Inr [stub_box]),
          InpaintCall 0 [stub_box] ''a photo'' (Inl ''repair failed'')]\<rparr>"
  have hyp: "(1::int) \<le> 5 \<and> detect_text ?c (cap_state fresh_world) (0::nat) = (Inr [stub_box], 1)
      \<and> [stub_box] \<noteq> []
      \<and> inpaint ?c 1 0 [stub_box] ''a photo'' = (Inl ''repair failed'', 2)"
    by (simp add: stub_caps_def fresh_world_def)
  note t = detextify_propagates_failures
    [of ?c 0 "''a photo''" 5 fresh_world "Inl ''repair failed''" ?w "[stub_box]" 1
        "''repair failed''" 2]
  note t2 = t [THEN conjunct2, THEN mp, OF hyp]
  have r: "detextify ?c 0 ''a photo'' 5 fresh_world = (Inl ''repair failed'', ?w)"
    using t2 [THEN conjunct1] by (simp add: fresh_world_def)
  have dc: "detector_calls (calls (snd (detextify ?c 0 ''a photo'' 5 fresh_world))) = 1"
    using t2 [THEN conjunct2, THEN conjunct1]
    by (simp add: fresh_world_def detector_calls_def)
  have rc: "repairer_calls (calls (snd (detextify ?c 0 ''a photo'' 5 fresh_world))) = 1"
    using t2 [THEN conjunct2, THEN conjunct2]
    by (simp add: fresh_world_def repairer_calls_def)
  have g: "\<exists>new. calls (snd (detextify ?c 0 ''a photo'' 5 fresh_world))
          = calls fresh_world @ new
        \<and> list_all (\<lambda>c. call_error c = None) (butlast new)
        \<and> new \<noteq> [] \<and> call_error (last new) = Some ''repair failed''"
    using t [THEN conjunct1, THEN mp, OF r] unfolding r by simp
  show ?thesis by (intro conjI r dc rc g)
qed

section \<open>The evaluator on an empty gold sequence\<close>

lemma multi_iou_empty_gold:
  "detected \<noteq> [] \<Longrightarrow> multi_intersection_over_union ops detected [] = Inl ValueError"
  by (cases detected) (simp_all add: multi_intersection_over_union_def)

lemma multi_iou_empty_detected:
  "multi_intersection_over_union ops [] gold =
     Inr (np_mean ops (penalty_loop (length gold) {} []))"
  by (simp add: multi_intersection_over_union_def)

text \<open>
  Claim C10. With a non-empty detected sequence and an empty gold sequence the evaluator
  raises (\<open>max\<close> of an empty list) instead of returning a score; so whenever it returns a
  score, the gold sequence is non-empty or the detected sequence is empty. This holds
  whatever the float operations are.
\<close>

theorem multi_iou_partial_on_empty_gold:
  "(detected \<noteq> [] \<longrightarrow> multi_intersection_over_union ops detected [] = Inl ValueError)
   \<and> (multi_intersection_over_union ops detected gold = Inr v \<longrightarrow>
        gold \<noteq> [] \<or> detected = [])"
proof (intro conjI impI)
  assume "detected \<noteq> []"
  then show "multi_intersection_over_union ops detected [] = Inl ValueError"
    by (rule multi_iou_empty_gold)
next
  assume r: "multi_intersection_over_union ops detected gold = Inr v"
  show "gold \<noteq> [] \<or> detected = []"
  proof (rule ccontr)
    assume "\<not> (gold \<noteq> [] \<or> detected = [])"
    then have "gold = []" "detected \<noteq> []" by simp_all
    with multi_iou_empty_gold [of detected ops] r show False by simp
  qed
qed

theorem multi_iou_partial_on_empty_gold_witness:
  "[\<lparr>y = 0, x = 0, h = 5, w = 5, box_text = None\<rparr>] \<noteq> []
   \<and> multi_intersection_over_union exact_ops
        [\<lparr>y = 0, x = 0, h = 5, w = 5, box_text = None\<rparr>] [] = Inl ValueError
   \<and> multi_intersection_over_union exact_ops
        [\<lparr>y = 0, x = 0, h = 5, w = 5, box_text = None\<rparr>]
        [\<lparr>y = 0, x = 0, h = 5, w = 5, box_text = None\<rparr>] = Inr (Mean 1)"
proof -
  let ?b = "\<lparr>y = 0, x = 0, h = 5, w = 5, box_text = None\<rparr>"
  have ne: "[?b] \<noteq> []" by simp
  have r: "multi_intersection_over_union exact_ops [?b] [?b] = Inr (Mean 1)"
    by (simp add: multi_intersection_over_union_def intersection_over_union_fl_def
        mark_matched_def penalty_loop_def exact_ops_def)
  note t = multi_iou_partial_on_empty_gold [of "[?b]" exact_ops "[?b]" "Mean 1"]
  have 1: "multi_intersection_over_union exact_ops [?b] [] = Inl ValueError"
    by (rule t [THEN conjunct1, THEN mp, OF ne])
  have 2: "[?b] \<noteq> [] \<or> [?b] = []"
    by (rule t [THEN conjunct2, THEN mp, OF r])
  show ?thesis using 2 by (intro conjI ne 1 r)
qed

section \<open>Merging nearby boxes: one pass\<close>

lemma overlap_self: "overlap_x a a = w a" "overlap_y a a = h a"
  by (simp_all add: overlap_x_def overlap_y_def)

lemma overlap_le_self: "overlap_x a b \<le> w a" "overlap_y a b \<le> h a"
  by (simp_all add: overlap_x_def overlap_y_def)

lemma should_merge_self:
  assumes "should_merge max_distance a b"
  shows "should_merge max_distance a a"
proof -
  have 1: "overlap_x a b \<le> w a" and 2: "overlap_y a b \<le> h a"
    by (rule overlap_le_self)+
  from assms have "(0 < overlap_x a b \<and> - overlap_y a b < max_distance) \<or>
      (0 < overlap_y a b \<and> - overlap_x a b < max_distance)"
    by (simp add: should_merge_def Let_def)
  then have "(0 < w a \<and> - h a < max_distance) \<or> (0 < h a \<and> - w a < max_distance)"
    using 1 2 by linarith
  then show ?thesis
    by (simp add: should_merge_def Let_def overlap_self)
qed

lemma sum_of_bool_zero:
  "(sum_list (map of_bool bs) = (0::nat)) = list_all Not bs"
  by (induction bs) simp_all

lemma compress_none:
  assumes "list_all Not bs"
  shows "compress xs bs = []"
proof -
  have "\<forall>p\<in>set (zip xs bs). \<not> snd p"
  proof
    fix p assume "p \<in> set (zip xs bs)"
    then have "(fst p, snd p) \<in> set (zip xs bs)" by simp
    then have "snd p \<in> set bs" by (rule set_zip_rightD)
    with assms show "\<not> snd p" unfolding list_all_iff by blast
  qed
  then have "filter snd (zip xs bs) = []" by (simp add: filter_empty_conv)
  then show ?thesis by (simp add: compress_def)
qed

lemma merge_with_box_no_merge:
  assumes "list_all (\<lambda>b. \<not> should_merge max_distance ref_box b) other_boxes"
  shows "merge_with_box max_distance ref_box other_boxes = Inr (ref_box # other_boxes)"
proof -
  have "list_all Not (map (should_merge max_distance ref_box) other_boxes)"
    using assms by (simp add: list_all_iff)
  then have "sum_list (map of_bool (map (should_merge max_distance ref_box) other_boxes)) = (0::nat)"
    by (simp only: sum_of_bool_zero)
  then show ?thesis
    unfolding merge_with_box_def Let_def by simp
qed

lemma merge_pass_no_merge:
  assumes "ref_never_merges max_distance curr_boxes ref_idx"
  shows "merge_pass max_distance curr_boxes ref_idx =
           Inr (take ref_idx curr_boxes @ curr_boxes ! ref_idx # drop ref_idx curr_boxes,
                ref_idx)"
proof -
  from assms have lt: "ref_idx < length curr_boxes"
    and nm: "list_all (\<lambda>b. \<not> should_merge max_distance (curr_boxes ! ref_idx) b)
               (drop ref_idx curr_boxes)"
    by (simp_all add: ref_never_merges_def)
  have len: "length (take ref_idx curr_boxes) + length (curr_boxes ! ref_idx # drop ref_idx curr_boxes)
      \<noteq> length curr_boxes"
    using lt by simp
  show ?thesis
    unfolding merge_pass_def Let_def merge_with_box_no_merge [OF nm]
    using len by simp
qed

lemma ref_never_merges_step:
  assumes "ref_never_merges max_distance curr_boxes ref_idx"
  shows "ref_never_merges max_distance
           (take ref_idx curr_boxes @ curr_boxes ! ref_idx # drop ref_idx curr_boxes) ref_idx"
proof -
  from assms have lt: "ref_idx < length curr_boxes"
    and nm: "list_all (\<lambda>b. \<not> should_merge max_distance (curr_boxes ! ref_idx) b)
               (drop ref_idx curr_boxes)"
    by (simp_all add: ref_never_merges_def)
  let ?r = "curr_boxes ! ref_idx"
  let ?c = "take ref_idx curr_boxes @ ?r # drop ref_idx curr_boxes"
  have len: "length (take ref_idx curr_boxes) = ref_idx" using lt by simp
  have nth: "?c ! ref_idx = ?r"
    using len by (metis nth_append_length)
  have dr: "drop ref_idx ?c = ?r # drop ref_idx curr_boxes"
    using len by (metis append_eq_conv_conj)
  have self: "\<not> should_merge max_distance ?r ?r"
  proof -
    have "?r \<in> set (drop ref_idx curr_boxes)"
      using lt by (metis Cons_nth_drop_Suc list.set_intros(1))
    with nm show ?thesis by (simp add: list_all_iff)
  qed
  show ?thesis
    unfolding ref_never_merges_def nth dr using lt nm self by simp
qed

section \<open>Merging nearby boxes: runs that never return\<close>

lemma merge_loop_never_returns:
  assumes "ref_never_merges max_distance curr_boxes ref_idx"
    and "int ref_idx < int (length curr_boxes) - 1"
  shows "merge_loop max_distance curr_boxes ref_idx = None"
proof (rule ccontr)
  assume "merge_loop max_distance curr_boxes ref_idx \<noteq> None"
  then obtain r where r: "merge_loop max_distance curr_boxes ref_idx = Some r" by auto
  have "\<not> (ref_never_merges max_distance curr_boxes ref_idx
          \<and> int ref_idx < int (length curr_boxes) - 1)"
  proof (rule merge_loop.raw_induct
      [where P = "\<lambda>md cb ri res. \<not> (ref_never_merges md cb ri \<and> int ri < int (length cb) - 1)",
       OF _ r])
    fix loop :: "int \<Rightarrow> TextBox list \<Rightarrow> nat \<Rightarrow> (error + TextBox list) option"
    fix md cb ri res
    assume IH: "\<And>md cb ri res. loop md cb ri = Some res \<Longrightarrow>
        \<not> (ref_never_merges md cb ri \<and> int ri < int (length cb) - 1)"
    assume step: "(if int ri < int (length cb) - 1
        then case merge_pass md cb ri of
               Inl e \<Rightarrow> Some (Inl e)
             | Inr (curr_boxes', ref_idx') \<Rightarrow> loop md curr_boxes' ref_idx'
        else Some (Inr cb)) = Some res"
    show "\<not> (ref_never_merges md cb ri \<and> int ri < int (length cb) - 1)"
    proof
      assume a: "ref_never_merges md cb ri \<and> int ri < int (length cb) - 1"
      let ?c = "take ri cb @ cb ! ri # drop ri cb"
      from a have p: "merge_pass md cb ri = Inr (?c, ri)"
        by (simp add: merge_pass_no_merge)
      from a step p have "loop md ?c ri = Some res" by simp
      from IH [OF this]
      have "\<not> (ref_never_merges md ?c ri \<and> int ri < int (length ?c) - 1)" .
      moreover have "ref_never_merges md ?c ri" using a by (simp add: ref_never_merges_step)
      moreover have "int ri < int (length ?c) - 1" using a by simp
      ultimately show False by simp
    qed
  qed
  with assms show False by simp
qed

section \<open>Merging two boxes\<close>

lemma merge_pass_two_merge:
  assumes "should_merge max_distance a b"
  shows "merge_pass max_distance [a, b] 0 = Inr ([enclosing a b], 0)"
proof -
  have self: "should_merge max_distance a a" by (rule should_merge_self [OF assms])
  have m: "merge [a, a, b] = Inr (enclosing a b)"
    by (simp add: merge_def enclosing_def min.commute max.commute)
  have flags: "map (should_merge max_distance a) [a, b] = [True, True]"
    using assms self by simp
  have cnt: "sum_list (map of_bool [True, True]) \<noteq> (0::nat)" by simp
  have c1: "compress [a, b] [True, True] = [a, b]" by (simp add: compress_def)
  have c2: "compress [a, b] (map Not [True, True]) = []" by (simp add: compress_def)
  have w: "merge_with_box max_distance a [a, b] = Inr [enclosing a b]"
    unfolding merge_with_box_def Let_def flags using cnt
    by (simp only: if_False c1 c2 append_Cons append_Nil m sum.case)
  show ?thesis by (simp add: merge_pass_def Let_def w)
qed

lemma merge_pass_two_keep:
  assumes "\<not> should_merge max_distance a b" "should_merge max_distance a a"
  shows "merge_pass max_distance [a, b] 0 =
           Inr ([\<lparr>y = y a, x = x a, h = h a, w = w a, box_text = None\<rparr>, b], 1)"
proof -
  have m: "merge [a, a] = Inr \<lparr>y = y a, x = x a, h = h a, w = w a, box_text = None\<rparr>"
    by (simp add: merge_def)
  have flags: "map (should_merge max_distance a) [a, b] = [True, False]"
    using assms by simp
  have cnt: "sum_list (map of_bool [True, False]) \<noteq> (0::nat)" by simp
  have c1: "compress [a, b] [True, False] = [a]" by (simp add: compress_def)
  have c2: "compress [a, b] (map Not [True, False]) = [b]" by (simp add: compress_def)
  have w: "merge_with_box max_distance a [a, b] =
      Inr [\<lparr>y = y a, x = x a, h = h a, w = w a, box_text = None\<rparr>, b]"
    unfolding merge_with_box_def Let_def flags using cnt
    by (simp only: if_False c1 c2 append_Cons append_Nil m sum.case)
  show ?thesis by (simp add: merge_pass_def Let_def w)
qed

lemma merge_two_boxes_merge:
  assumes "should_merge max_distance a b"
  shows "merge_nearby_boxes [a, b] max_distance = Some (Inr [enclosing a b])"
proof -
  have "merge_loop max_distance [a, b] 0 = merge_loop max_distance [enclosing a b] 0"
    by (subst merge_loop.simps) (simp add: merge_pass_two_merge [OF assms])
  also have "\<dots> = Some (Inr [enclosing a b])"
    by (subst merge_loop.simps) simp
  finally show ?thesis by (simp add: merge_nearby_boxes_def)
qed

lemma merge_two_boxes_keep:
  assumes "\<not> should_merge max_distance a b" "should_merge max_distance a a"
  shows "merge_nearby_boxes [a, b] max_distance =
           Some (Inr [\<lparr>y = y a, x = x a, h = h a, w = w a, box_text = None\<rparr>, b])"
proof -
  let ?a = "\<lparr>y = y a, x = x a, h = h a, w = w a, box_text = None\<rparr>"
  have "merge_loop max_distance [a, b] 0 = merge_loop max_distance [?a, b] 1"
    by (subst merge_loop.simps) (simp add: merge_pass_two_keep [OF assms])
  also have "\<dots> = Some (Inr [?a, b])"
    by (subst merge_loop.simps) simp
  finally show ?thesis by (simp add: merge_nearby_boxes_def)
qed

lemma merge_two_boxes_never_returns:
  assumes "\<not> should_merge max_distance a b" "\<not> should_merge max_distance a a"
  shows "merge_nearby_boxes [a, b] max_distance = None"
proof -
  have "ref_never_merges max_distance [a, b] 0"
    using assms by (simp add: ref_never_merges_def)
  then have "merge_loop max_distance [a, b] 0 = None"
    by (rule merge_loop_never_returns) simp
  then show ?thesis by (simp add: merge_nearby_boxes_def)
qed

section \<open>Inputs on which the merge loop does not behave as specified\<close>

text \<open>
  Claim C3 on the code. \<open>merge_with_box\<close> is called with \<open>curr_boxes[ref_idx:]\<close>, which
  begins with the reference box itself. For \<open>[a, b]\<close> the result is the single enclosing
  box when \<open>should_merge a b\<close> (lemma \<open>merge_two_boxes_merge\<close>). Otherwise the outcome
  depends on \<open>should_merge a a\<close>: when it holds, \<open>a\<close> is merged with itself and comes
  back without its label (lemma \<open>merge_two_boxes_keep\<close>); when it fails, as for a box of
  zero height and width, the call never returns (lemma \<open>merge_two_boxes_never_returns\<close>).
  The theorem evaluates both at concrete inputs with \<open>max_distance = 10\<close>: a box of zero
  area followed by a distant box, and a labelled box followed by a distant box.
\<close>

theorem merge_two_boxes_unchanged_fails:
  "\<not> should_merge 10 \<lparr>y = 0, x = 0, h = 0, w = 0, box_text = None\<rparr>
       \<lparr>y = 20, x = 20, h = 5, w = 5, box_text = None\<rparr>
   \<and> merge_nearby_boxes [\<lparr>y = 0, x = 0, h = 0, w = 0, box_text = None\<rparr>,
        \<lparr>y = 20, x = 20, h = 5, w = 5, box_text = None\<rparr>] 10 = None
   \<and> \<not> should_merge 10 \<lparr>y = 0, x = 0, h = 5, w = 5, box_text = Some ''abc''\<rparr>
       \<lparr>y = 100, x = 100, h = 5, w = 5, box_text = None\<rparr>
   \<and> merge_nearby_boxes [\<lparr>y = 0, x = 0, h = 5, w = 5, box_text = Some ''abc''\<rparr>,
        \<lparr>y = 100, x = 100, h = 5, w = 5, box_text = None\<rparr>] 10 =
       Some (Inr [\<lparr>y = 0, x = 0, h = 5, w = 5, box_text = None\<rparr>,
                  \<lparr>y = 100, x = 100, h = 5, w = 5, box_text = None\<rparr>])"
proof -
  let ?a = "\<lparr>y = 0, x = 0, h = 0, w = 0, box_text = None\<rparr>"
  let ?b = "\<lparr>y = 20, x = 20, h = 5, w = 5, box_text = None\<rparr>"
  let ?l = "\<lparr>y = 0, x = 0, h = 5, w = 5, box_text = Some ''abc''\<rparr>"
  let ?c = "\<lparr>y = 100, x = 100, h = 5, w = 5, box_text = None\<rparr>"
  have ab: "\<not> should_merge 10 ?a ?b"
    by (simp add: should_merge_def overlap_x_def overlap_y_def)
  have aa: "\<not> should_merge 10 ?a ?a"
    by (simp add: should_merge_def overlap_x_def overlap_y_def)
  have lc: "\<not> should_merge 10 ?l ?c"
    by (simp add: should_merge_def overlap_x_def overlap_y_def)
  have ll: "should_merge 10 ?l ?l"
    by (simp add: should_merge_def overlap_x_def overlap_y_def)
  have 1: "merge_nearby_boxes [?a, ?b] 10 = None"
    by (rule merge_two_boxes_never_returns [OF ab aa])
  have 2: "merge_nearby_boxes [?l, ?c] 10 =
      Some (Inr [\<lparr>y = 0, x = 0, h = 5, w = 5, box_text = None\<rparr>, ?c])"
    using merge_two_boxes_keep [OF lc ll] by simp
  show ?thesis by (intro conjI ab 1 lc 2)
qed

text \<open>
  Claim C4 on the code. With \<open>max_distance = 10\<close>, a box of zero height and width
  followed by a distant box: the reference box is in the list handed to \<open>merge_with_box\<close>
  and does not merge with itself, so each pass at index 0 returns the list with one more
  copy of it, the index does not advance, and \<open>merge_nearby_boxes\<close> never returns.
\<close>

theorem merge_nearby_boxes_zero_area_never_returns:
  "merge_pass 10 [\<lparr>y = 0, x = 0, h = 0, w = 0, box_text = None\<rparr>,
        \<lparr>y = 10, x = 10, h = 5, w = 5, box_text = None\<rparr>] 0 =
     Inr ([\<lparr>y = 0, x = 0, h = 0, w = 0, box_text = None\<rparr>,
           \<lparr>y = 0, x = 0, h = 0, w = 0, box_text = None\<rparr>,
           \<lparr>y = 10, x = 10, h = 5, w = 5, box_text = None\<rparr>], 0)
   \<and> merge_pass 10 [\<lparr>y = 0, x = 0, h = 0, w = 0, box_text = None\<rparr>,
        \<lparr>y = 0, x = 0, h = 0, w = 0, box_text = None\<rparr>,
        \<lparr>y = 10, x = 10, h = 5, w = 5, box_text = None\<rparr>] 0 =
     Inr ([\<lparr>y = 0, x = 0, h = 0, w = 0, box_text = None\<rparr>,
           \<lparr>y = 0, x = 0, h = 0, w = 0, box_text = None\<rparr>,
           \<lparr>y = 0, x = 0, h = 0, w = 0, box_text = None\<rparr>,
           \<lparr>y = 10, x = 10, h = 5, w = 5, box_text = None\<rparr>], 0)
   \<and> merge_nearby_boxes [\<lparr>y = 0, x = 0, h = 0, w = 0, box_text = None\<rparr>,
        \<lparr>y = 10, x = 10, h = 5, w = 5, box_text = None\<rparr>] 10 = None"
proof -
  let ?a = "\<lparr>y = 0, x = 0, h = 0, w = 0, box_text = None\<rparr>"
  let ?b = "\<lparr>y = 10, x = 10, h = 5, w = 5, box_text = None\<rparr>"
  have ab: "\<not> should_merge 10 ?a ?b"
    by (simp add: should_merge_def overlap_x_def overlap_y_def)
  have aa: "\<not> should_merge 10 ?a ?a"
    by (simp add: should_merge_def overlap_x_def overlap_y_def)
  have n2: "ref_never_merges 10 [?a, ?b] 0"
    using ab aa by (simp add: ref_never_merges_def)
  have n3: "ref_never_merges 10 [?a, ?a, ?b] 0"
    using ab aa by (simp add: ref_never_merges_def)
  have 1: "merge_pass 10 [?a, ?b] 0 = Inr ([?a, ?a, ?b], 0)"
    using merge_pass_no_merge [OF n2] by simp
  have 2: "merge_pass 10 [?a, ?a, ?b] 0 = Inr ([?a, ?a, ?a, ?b], 0)"
    using merge_pass_no_merge [OF n3] by simp
  have "merge_loop 10 [?a, ?b] 0 = None"
    by (rule merge_loop_never_returns [OF n2]) simp
  then have 3: "merge_nearby_boxes [?a, ?b] 10 = None"
    by (simp add: merge_nearby_boxes_def)
  show ?thesis by (intro conjI 1 2 3)
qed

section \<open>The evaluator computes the specified mean\<close>

lemma intersection_over_union_fl_unfold:
  "intersection_over_union_fl ops a b =
     (if spec_area a + spec_area b - spec_intersection a b = 0 then Inl ZeroDivisionError
      else Inr (spec_iou_fl ops a b))"
  by (simp add: intersection_over_union_fl_def Let_def spec_iou_fl_def spec_area_def
      spec_intersection_def)

lemma intersection_over_union_fl_valid:
  "valid_box a \<Longrightarrow> valid_box b \<Longrightarrow> intersection_over_union_fl ops a b = Inr (spec_iou_fl ops a b)"
  using spec_divisor_pos [of a b] by (simp add: intersection_over_union_fl_unfold)

lemma intersection_over_union_fl_exact:
  "intersection_over_union_fl exact_ops a b = intersection_over_union a b"
  by (simp add: intersection_over_union_fl_def intersection_over_union_def exact_ops_def
      Let_def)

lemma ious_of_valid:
  assumes "valid_box db" "list_all valid_box gold"
  shows "ious_of ops db gold = Inr (map (spec_iou_fl ops db) gold)"
  using assms(2)
  by (induction gold) (simp_all add: intersection_over_union_fl_valid [OF assms(1)])

lemma py_max_Max: "vs \<noteq> [] \<Longrightarrow> py_max vs = Inr (Max (set vs))"
proof (cases vs)
  case Nil
  assume "vs \<noteq> []"
  with Nil show ?thesis by simp
next
  case (Cons a list)
  have "fold max list a = Max (set (a # list))" by (rule Max.set_eq_fold [symmetric])
  then show ?thesis using Cons by simp
qed

lemma mark_matched_fold:
  "fold (\<lambda>(idx, iou) m. if iou = v then insert idx m else m) (enumerate n ious) matched =
     matched \<union> {n + j | j. j < length ious \<and> ious ! j = v}"
proof (induction ious arbitrary: n matched)
  case Nil
  then show ?case by simp
next
  case (Cons a ious)
  have split: "{n + j | j. j < length (a # ious) \<and> (a # ious) ! j = v} =
      (if a = v then {n} else {}) \<union> {Suc n + j | j. j < length ious \<and> ious ! j = v}"
  proof (rule set_eqI)
    fix k
    show "k \<in> {n + j | j. j < length (a # ious) \<and> (a # ious) ! j = v} \<longleftrightarrow>
        k \<in> (if a = v then {n} else {}) \<union> {Suc n + j | j. j < length ious \<and> ious ! j = v}"
    proof
      assume "k \<in> {n + j | j. j < length (a # ious) \<and> (a # ious) ! j = v}"
      then obtain j where j: "k = n + j" "j < length (a # ious)" "(a # ious) ! j = v" by blast
      show "k \<in> (if a = v then {n} else {}) \<union> {Suc n + j | j. j < length ious \<and> ious ! j = v}"
      proof (cases j)
        case 0
        with j show ?thesis by simp
      next
        case (Suc i)
        with j have "k = Suc n + i" "i < length ious" "ious ! i = v" by simp_all
        then show ?thesis by blast
      qed
    next
      assume "k \<in> (if a = v then {n} else {}) \<union> {Suc n + j | j. j < length ious \<and> ious ! j = v}"
      then consider "a = v" "k = n" | i where "k = Suc n + i" "i < length ious" "ious ! i = v"
        by (auto split: if_splits)
      then show "k \<in> {n + j | j. j < length (a # ious) \<and> (a # ious) ! j = v}"
      proof cases
        case 1
        then have "k = n + 0 \<and> 0 < length (a # ious) \<and> (a # ious) ! 0 = v" by simp
        then show ?thesis by blast
      next
        case 2
        then have "k = n + Suc i \<and> Suc i < length (a # ious) \<and> (a # ious) ! Suc i = v" by simp
        then show ?thesis by blast
      qed
    qed
  qed
  show ?case
    unfolding split by (simp add: Cons.IH Un_assoc [symmetric] del: Un_insert_right) (auto)
qed

lemma mark_matched_eq:
  "mark_matched ious v matched = matched \<union> {j. j < length ious \<and> ious ! j = v}"
  using mark_matched_fold [of v 0 ious matched] by (simp add: mark_matched_def)

lemma spec_best_iou_py_max:
  assumes "gold \<noteq> []"
  shows "py_max (map (spec_iou_fl ops db) gold) = Inr (spec_best_iou ops db gold)"
  using assms by (simp add: py_max_Max spec_best_iou_def)

lemma detected_loop_valid:
  assumes "gold \<noteq> []" "list_all valid_box gold" "list_all valid_box dbs"
  shows "detected_loop ops dbs gold (matched, acc) =
           Inr (matched \<union> {j. j < length gold \<and> spec_is_argmax ops dbs gold j},
                acc @ map (\<lambda>d. spec_best_iou ops d gold) dbs)"
  using assms(3)
proof (induction dbs arbitrary: matched acc)
  case Nil
  then show ?case by (simp add: spec_is_argmax_def)
next
  case (Cons db dbs)
  then have v: "valid_box db" and vs: "list_all valid_box dbs" by simp_all
  let ?v = "spec_best_iou ops db gold"
  let ?m = "mark_matched (map (spec_iou_fl ops db) gold) ?v matched"
  have m: "?m = matched \<union> {j. j < length gold \<and> spec_iou_fl ops db (gold ! j) = ?v}"
  proof -
    have "{j. j < length (map (spec_iou_fl ops db) gold)
              \<and> map (spec_iou_fl ops db) gold ! j = ?v} =
        {j. j < length gold \<and> spec_iou_fl ops db (gold ! j) = ?v}"
      by auto
    then show ?thesis by (simp only: mark_matched_eq)
  qed
  have step: "detected_loop ops (db # dbs) gold (matched, acc) =
      detected_loop ops dbs gold (?m, acc @ [?v])"
    by (simp add: ious_of_valid [OF v assms(2)] spec_best_iou_py_max [OF assms(1)])
  have sets: "?m \<union> {j. j < length gold \<and> spec_is_argmax ops dbs gold j} =
      matched \<union> {j. j < length gold \<and> spec_is_argmax ops (db # dbs) gold j}"
    unfolding m by (auto simp: spec_is_argmax_def)
  show ?case
    unfolding step Cons.IH [OF vs] sets by simp
qed

lemma penalty_loop_eq:
  "penalty_loop n matched acc = acc @ map (\<lambda>j. 0) (filter (\<lambda>j. j \<notin> matched) [0..<n])"
  by (induction n) (simp_all add: penalty_loop_def)

lemma multi_iou_valid:
  assumes "detected \<noteq> []" "gold \<noteq> []" "list_all valid_box detected" "list_all valid_box gold"
  shows "multi_intersection_over_union ops detected gold =
           Inr (Mean (spec_average_best_iou ops detected gold))"
proof -
  let ?M = "{} \<union> {j. j < length gold \<and> spec_is_argmax ops detected gold j}"
  have f: "filter (\<lambda>j. j \<notin> ?M) [0..<length gold] =
      filter (\<lambda>j. \<not> spec_is_argmax ops detected gold j) [0..<length gold]"
    by (rule filter_cong) simp_all
  have t: "penalty_loop (length gold) ?M ([] @ map (\<lambda>d. spec_best_iou ops d gold) detected) =
      spec_terms ops detected gold"
    unfolding penalty_loop_eq f by (simp add: spec_terms_def)
  have ne: "spec_terms ops detected gold \<noteq> []"
    using assms(1) by (simp add: spec_terms_def)
  have mean: "np_mean ops (spec_terms ops detected gold) =
      Mean (spec_average_best_iou ops detected gold)"
    using ne by (cases "spec_terms ops detected gold") (simp_all add: spec_average_best_iou_def)
  show ?thesis
    unfolding multi_intersection_over_union_def
      detected_loop_valid [OF assms(2) assms(4) assms(3)]
    by (simp only: sum.case prod.case t mean)
qed

lemma spec_intersection_self:
  assumes "valid_box r"
  shows "spec_intersection r r = spec_area r"
  using assms by (simp add: spec_intersection_def spec_area_def valid_box_def mult.commute)

lemma multi_iou_identical_singleton:
  assumes "valid_box r" "fl_div ops (spec_area r) (spec_area r) = 1" "fl_mean ops [1] = 1"
  shows "multi_intersection_over_union ops [r] [r] = Inr (Mean 1)"
proof -
  have i: "spec_iou_fl ops r r = 1"
    using assms(2) by (simp add: spec_iou_fl_def spec_intersection_self [OF assms(1)])
  have "spec_average_best_iou ops [r] [r] = 1"
    by (simp add: spec_average_best_iou_def spec_terms_def spec_is_argmax_def
        spec_best_iou_def i assms(3))
  then show ?thesis
    using multi_iou_valid [of "[r]" "[r]" ops] assms(1) by simp
qed

lemma multi_iou_extra_gold:
  assumes "fl_div ops 36 36 = 1" "fl_div ops 0 72 = 0" "fl_mean ops [1, 0] = 1 / 2"
  shows "multi_intersection_over_union ops [\<lparr>y = 0, x = 0, h = 5, w = 5, box_text = None\<rparr>]
     [\<lparr>y = 0, x = 0, h = 5, w = 5, box_text = None\<rparr>,
      \<lparr>y = 100, x = 100, h = 5, w = 5, box_text = None\<rparr>] = Inr (Mean (1 / 2))"
  using assms
  by (simp add: multi_intersection_over_union_def intersection_over_union_fl_def
      mark_matched_def penalty_loop_def)

text \<open>
  Two ratios that differ as rationals tie when the division returns the same double for
  both: \<open>51185180 / 98959323\<close> and \<open>59732127 / 115483639\<close> are such a pair. Both gold
  boxes are then marked and no zero is appended; when the second double is the larger one,
  only the second gold box is marked and one zero is appended.
\<close>

lemma multi_iou_close_ratios:
  "(fl_div ops 51185180 98959323 = fl_div ops 59732127 115483639 \<longrightarrow>
      multi_intersection_over_union ops
        [\<lparr>y = 0, x = 0, h = 8072, w = 8419, box_text = None\<rparr>]
        [\<lparr>y = 0, x = 0, h = 6078, w = 13516, box_text = None\<rparr>,
         \<lparr>y = 0, x = 0, h = 14493, w = 7398, box_text = None\<rparr>] =
      Inr (Mean (fl_mean ops [fl_div ops 51185180 98959323])))
   \<and> (fl_div ops 51185180 98959323 < fl_div ops 59732127 115483639 \<longrightarrow>
      multi_intersection_over_union ops
        [\<lparr>y = 0, x = 0, h = 8072, w = 8419, box_text = None\<rparr>]
        [\<lparr>y = 0, x = 0, h = 6078, w = 13516, box_text = None\<rparr>,
         \<lparr>y = 0, x = 0, h = 14493, w = 7398, box_text = None\<rparr>] =
      Inr (Mean (fl_mean ops [fl_div ops 59732127 115483639, 0])))"
  by (simp add: multi_intersection_over_union_def intersection_over_union_fl_def
      mark_matched_def penalty_loop_def)

text \<open>
  Claim C2. For non-empty sequences of detected and gold regions (with nonnegative heights
  and widths, the invariant of the data model, so that no division fails) the evaluator
  returns the mean of one best ratio per detected region and one zero per gold index that
  is an arg-max of no detected region; the ratios, their maximum and their ties are those
  of the doubles that the division returns, whatever the float operations are. For one
  region against itself and a distant extra gold region it returns \<open>1 / 2\<close>, and for a
  singleton against itself it returns 1: these two use that \<open>36 / 36.0\<close> and \<open>n / float(n)\<close>
  are \<open>1.0\<close>, that \<open>0 / 72.0\<close> is \<open>0.0\<close>, that the mean of \<open>1.0\<close> and \<open>0.0\<close> is
  \<open>0.5\<close> and that the mean of a single \<open>1.0\<close> is \<open>1.0\<close>, all exact in doubles.
\<close>

theorem multi_iou_refines_spec:
  "(detected \<noteq> [] \<and> gold \<noteq> [] \<and> list_all valid_box detected \<and> list_all valid_box gold \<longrightarrow>
      multi_intersection_over_union ops detected gold =
        Inr (Mean (spec_average_best_iou ops detected gold)))
   \<and> (fl_div ops 36 36 = 1 \<and> fl_div ops 0 72 = 0 \<and> fl_mean ops [1, 0] = 1 / 2 \<longrightarrow>
      multi_intersection_over_union ops [\<lparr>y = 0, x = 0, h = 5, w = 5, box_text = None\<rparr>]
        [\<lparr>y = 0, x = 0, h = 5, w = 5, box_text = None\<rparr>,
         \<lparr>y = 100, x = 100, h = 5, w = 5, box_text = None\<rparr>] = Inr (Mean (1 / 2)))
   \<and> (valid_box r \<and> fl_div ops (spec_area r) (spec_area r) = 1 \<and> fl_mean ops [1] = 1 \<longrightarrow>
      multi_intersection_over_union ops [r] [r] = Inr (Mean 1))"
  using multi_iou_valid [of detected gold ops] multi_iou_extra_gold [of ops]
    multi_iou_identical_singleton [of r ops]
  by blast

theorem multi_iou_refines_spec_witness:
  "[\<lparr>y = 0, x = 0, h = 5, w = 5, box_text = None\<rparr>,
    \<lparr>y = 2, x = 3, h = 5, w = 5, box_text = None\<rparr>] \<noteq> []
   \<and> list_all valid_box [\<lparr>y = 0, x = 0, h = 5, w = 5, box_text = None\<rparr>,
        \<lparr>y = 2, x = 3, h = 5, w = 5, box_text = None\<rparr>]
   \<and> list_all valid_box [\<lparr>y = 0, x = 0, h = 5, w = 5, box_text = None\<rparr>,
        \<lparr>y = 100, x = 100, h = 5, w = 5, box_text = None\<rparr>]
   \<and> multi_intersection_over_union exact_ops
        [\<lparr>y = 0, x = 0, h = 5, w = 5, box_text = None\<rparr>,
         \<lparr>y = 2, x = 3, h = 5, w = 5, box_text = None\<rparr>]
        [\<lparr>y = 0, x = 0, h = 5, w = 5, box_text = None\<rparr>,
         \<lparr>y = 100, x = 100, h = 5, w = 5, box_text = None\<rparr>] = Inr (Mean (2 / 5))
   \<and> spec_average_best_iou exact_ops
        [\<lparr>y = 0, x = 0, h = 5, w = 5, box_text = None\<rparr>,
         \<lparr>y = 2, x = 3, h = 5, w = 5, box_text = None\<rparr>]
        [\<lparr>y = 0, x = 0, h = 5, w = 5, box_text = None\<rparr>,
         \<lparr>y = 100, x = 100, h = 5, w = 5, box_text = None\<rparr>] = 2 / 5
   \<and> fl_div exact_ops 36 36 = 1 \<and> fl_div exact_ops 0 72 = 0
   \<and> fl_mean exact_ops [1, 0] = 1 / 2
   \<and> multi_intersection_over_union exact_ops
        [\<lparr>y = 0, x = 0, h = 5, w = 5, box_text = None\<rparr>]
        [\<lparr>y = 0, x = 0, h = 5, w = 5, box_text = None\<rparr>,
         \<lparr>y = 100, x = 100, h = 5, w = 5, box_text = None\<rparr>] = Inr (Mean (1 / 2))
   \<and> valid_box \<lparr>y = 0, x = 0, h = 10, w = 10, box_text = None\<rparr>
   \<and> fl_div exact_ops (spec_area \<lparr>y = 0, x = 0, h = 10, w = 10, box_text = None\<rparr>)
        (spec_area \<lparr>y = 0, x = 0, h = 10, w = 10, box_text = None\<rparr>) = 1
   \<and> fl_mean exact_ops [1] = 1
   \<and> multi_intersection_over_union exact_ops
        [\<lparr>y = 0, x = 0, h = 10, w = 10, box_text = None\<rparr>]
        [\<lparr>y = 0, x = 0, h = 10, w = 10, box_text = None\<rparr>] = Inr (Mean 1)"
proof -
  let ?d = "[\<lparr>y = 0, x = 0, h = 5, w = 5, box_text = None\<rparr>,
             \<lparr>y = 2, x = 3, h = 5, w = 5, box_text = None\<rparr>]"
  let ?g = "[\<lparr>y = 0, x = 0, h = 5, w = 5, box_text = None\<rparr>,
             \<lparr>y = 100, x = 100, h = 5, w = 5, box_text = None\<rparr>]"
  let ?r = "\<lparr>y = 0, x = 0, h = 10, w = 10, box_text = None\<rparr>"
  note t = multi_iou_refines_spec [of ?d ?g exact_ops ?r]
  have ne: "?d \<noteq> []" by simp
  have vd: "list_all valid_box ?d" by (simp add: valid_box_def)
  have vg: "list_all valid_box ?g" by (simp add: valid_box_def)
  have vr: "valid_box ?r" by (simp add: valid_box_def)
  have f1: "fl_div exact_ops 36 36 = 1" by (simp add: exact_ops_def)
  have f2: "fl_div exact_ops 0 72 = 0" by (simp add: exact_ops_def)
  have f3: "fl_mean exact_ops [1, 0] = 1 / 2" by (simp add: exact_ops_def)
  have f4: "fl_div exact_ops (spec_area ?r) (spec_area ?r) = 1"
    by (simp add: exact_ops_def spec_area_def)
  have f5: "fl_mean exact_ops [1] = 1" by (simp add: exact_ops_def)
  have hyp: "?d \<noteq> [] \<and> ?g \<noteq> [] \<and> list_all valid_box ?d \<and> list_all valid_box ?g"
    using vd vg by simp
  have run: "multi_intersection_over_union exact_ops ?d ?g = Inr (Mean (2 / 5))"
    by (simp add: multi_intersection_over_union_def intersection_over_union_fl_def
        mark_matched_def penalty_loop_def exact_ops_def)
  have ref: "multi_intersection_over_union exact_ops ?d ?g =
      Inr (Mean (spec_average_best_iou exact_ops ?d ?g))"
    by (rule t [THEN conjunct1, THEN mp, OF hyp])
  have val: "spec_average_best_iou exact_ops ?d ?g = 2 / 5"
    using run ref by simp
  have half: "multi_intersection_over_union exact_ops
        [\<lparr>y = 0, x = 0, h = 5, w = 5, box_text = None\<rparr>] ?g = Inr (Mean (1 / 2))"
    using t [THEN conjunct2, THEN conjunct1] f1 f2 f3 by blast
  have one: "multi_intersection_over_union exact_ops [?r] [?r] = Inr (Mean 1)"
    using t [THEN conjunct2, THEN conjunct2] vr f4 f5 by blast
  show ?thesis by (intro conjI ne vd vg run val f1 f2 f3 half vr f4 f5 one)
qed

section \<open>Merging nearby boxes: inputs on which the loop returns\<close>

text \<open>
  The loop returns on every input whose boxes each satisfy \<open>should_merge\<close> with
  themselves, as boxes of positive height and width do for a positive \<open>max_distance\<close>:
  the reference box then always merges at least with itself, a pass never lengthens the
  sequence, and the merged box again merges with itself.
\<close>

lemma fold_min_le: "fold min vs (v::int) \<le> v"
proof (induction vs arbitrary: v)
  case Nil
  show ?case by simp
next
  case (Cons a vs)
  have "fold min vs (min a v) \<le> min a v" by (rule Cons.IH)
  then show ?case by simp
qed

lemma fold_max_ge: "(v::int) \<le> fold max vs v"
proof (induction vs arbitrary: v)
  case Nil
  show ?case by simp
next
  case (Cons a vs)
  have "max a v \<le> fold max vs (max a v)" by (rule Cons.IH)
  then show ?case by simp
qed

lemma merge_Cons:
  "\<exists>m. merge (r # bs) = Inr m \<and> y m \<le> y r \<and> x m \<le> x r \<and>
       y r + h r \<le> y m + h m \<and> x r + w r \<le> x m + w m"
  by (simp add: merge_def fold_min_le fold_max_ge)

lemma should_merge_grow:
  assumes "should_merge max_distance r r" "h r \<le> h m" "w r \<le> w m"
  shows "should_merge max_distance m m"
proof -
  from assms(1) have "(0 < w r \<and> - h r < max_distance) \<or> (0 < h r \<and> - w r < max_distance)"
    by (simp add: should_merge_def Let_def overlap_self)
  then have "(0 < w m \<and> - h m < max_distance) \<or> (0 < h m \<and> - w m < max_distance)"
    using assms(2,3) by linarith
  then show ?thesis by (simp add: should_merge_def Let_def overlap_self)
qed

lemma compress_map: "compress xs (map P xs) = filter P xs"
  by (induction xs) (simp_all add: compress_def)

lemma compress_map_Not: "compress xs (map Not (map P xs)) = filter (\<lambda>b. \<not> P b) xs"
  by (induction xs) (simp_all add: compress_def)

lemma merge_with_box_self:
  assumes "should_merge max_distance r r"
  shows "\<exists>m. merge_with_box max_distance r (r # rest) =
             Inr (m # filter (\<lambda>b. \<not> should_merge max_distance r b) rest)
           \<and> should_merge max_distance m m"
proof -
  let ?flags = "map (should_merge max_distance r) (r # rest)"
  have cnt: "sum_list (map of_bool ?flags) \<noteq> (0::nat)"
    using assms by simp
  obtain m where m: "merge (r # compress (r # rest) ?flags) = Inr m"
    and g: "y m \<le> y r" "x m \<le> x r" "y r + h r \<le> y m + h m" "x r + w r \<le> x m + w m"
    using merge_Cons [of r "compress (r # rest) ?flags"] by auto
  have keep: "compress (r # rest) (map Not ?flags) =
      filter (\<lambda>b. \<not> should_merge max_distance r b) rest"
    unfolding compress_map_Not using assms by simp
  have "merge_with_box max_distance r (r # rest) =
      Inr (m # filter (\<lambda>b. \<not> should_merge max_distance r b) rest)"
    unfolding merge_with_box_def Let_def using cnt
    by (simp only: if_False m keep sum.case append_Cons append_Nil)
  moreover have "should_merge max_distance m m"
    by (rule should_merge_grow [OF assms]) (use g in linarith)+
  ultimately show ?thesis by blast
qed

lemma merge_pass_self:
  assumes "ref_idx < length curr_boxes"
    and "list_all (\<lambda>b. should_merge max_distance b b) curr_boxes"
  shows "\<exists>m. merge_pass max_distance curr_boxes ref_idx =
             Inr (take ref_idx curr_boxes @ m #
                    filter (\<lambda>b. \<not> should_merge max_distance (curr_boxes ! ref_idx) b)
                      (drop (Suc ref_idx) curr_boxes),
                  if length (filter (\<lambda>b. \<not> should_merge max_distance (curr_boxes ! ref_idx) b)
                       (drop (Suc ref_idx) curr_boxes)) = length (drop (Suc ref_idx) curr_boxes)
                  then ref_idx + 1 else ref_idx)
           \<and> should_merge max_distance m m"
proof -
  let ?r = "curr_boxes ! ref_idx"
  let ?rest = "drop (Suc ref_idx) curr_boxes"
  let ?keep = "filter (\<lambda>b. \<not> should_merge max_distance ?r b) ?rest"
  have d: "drop ref_idx curr_boxes = ?r # ?rest"
    using assms(1) by (simp add: Cons_nth_drop_Suc)
  have self: "should_merge max_distance ?r ?r"
    using assms by (simp add: list_all_length)
  from merge_with_box_self [OF self, of ?rest] obtain m where
    m: "merge_with_box max_distance ?r (?r # ?rest) = Inr (m # ?keep)"
    and mm: "should_merge max_distance m m"
    by blast
  have len: "(length (take ref_idx curr_boxes) + length (m # ?keep) = length curr_boxes) =
      (length ?keep = length ?rest)"
    using assms(1) by auto
  have "merge_pass max_distance curr_boxes ref_idx =
      Inr (take ref_idx curr_boxes @ m # ?keep,
           if length ?keep = length ?rest then ref_idx + 1 else ref_idx)"
    unfolding merge_pass_def Let_def d m by (simp only: sum.case len)
  with mm show ?thesis by blast
qed

lemma merge_loop_returns:
  assumes "list_all (\<lambda>b. should_merge max_distance b b) curr_boxes"
  shows "\<exists>bs. merge_loop max_distance curr_boxes ref_idx = Some (Inr bs)"
  using assms
proof (induction "2 * length curr_boxes - ref_idx" arbitrary: curr_boxes ref_idx
    rule: less_induct)
  case less
  show ?case
  proof (cases "int ref_idx < int (length curr_boxes) - 1")
    case False
    then show ?thesis by (subst merge_loop.simps) simp
  next
    case True
    then have lt: "ref_idx < length curr_boxes" by simp
    let ?r = "curr_boxes ! ref_idx"
    let ?rest = "drop (Suc ref_idx) curr_boxes"
    let ?keep = "filter (\<lambda>b. \<not> should_merge max_distance ?r b) ?rest"
    let ?ri = "if length ?keep = length ?rest then ref_idx + 1 else ref_idx"
    from merge_pass_self [OF lt less.prems] obtain m where
      p: "merge_pass max_distance curr_boxes ref_idx =
            Inr (take ref_idx curr_boxes @ m # ?keep, ?ri)"
      and mm: "should_merge max_distance m m"
      by blast
    let ?c = "take ref_idx curr_boxes @ m # ?keep"
    have inv: "list_all (\<lambda>b. should_merge max_distance b b) ?c"
    proof -
      have "set ?c \<subseteq> insert m (set curr_boxes)"
        by (auto dest: in_set_takeD in_set_dropD)
      with less.prems mm show ?thesis by (auto simp: list_all_iff)
    qed
    have kl: "length ?keep \<le> length ?rest" by (rule length_filter_le)
    have lc: "length ?c = ref_idx + 1 + length ?keep" using lt by simp
    have lr: "length ?rest = length curr_boxes - ref_idx - 1" by simp
    have dec: "2 * length ?c - ?ri < 2 * length curr_boxes - ref_idx"
      using lt kl lc lr by (auto split: if_splits)
    from less.hyps [OF dec inv] obtain bs where
      "merge_loop max_distance ?c ?ri = Some (Inr bs)" by blast
    moreover have "merge_loop max_distance curr_boxes ref_idx = merge_loop max_distance ?c ?ri"
      by (subst merge_loop.simps) (simp only: True if_True p sum.case prod.case)
    ultimately show ?thesis by simp
  qed
qed

lemma merge_nearby_boxes_returns:
  assumes "list_all (\<lambda>b. should_merge max_distance b b) boxes"
  shows "\<exists>bs. merge_nearby_boxes boxes max_distance = Some (Inr bs)"
  using merge_loop_returns [OF assms, of 0] by (simp add: merge_nearby_boxes_def)

lemma positive_area_self_merge:
  assumes "0 < h b" "0 < w b" "0 < max_distance"
  shows "should_merge max_distance b b"
  using assms by (simp add: should_merge_def Let_def overlap_self)

end
